theory Spec2Isabelle
  imports Main "HOL-Library.Word" "HOL-Library.Multiset"
begin

unbundle bit_operations_syntax

section \<open>Frame codec: \<open>parsePackets\<close> (BLEContext.tsx)\<close>

text \<open>
  The inbound buffer \<open>packetBufferRef.current\<close> is a list of bytes, the receive queue
  \<open>rxQueueRef.current\<close> a list of parsed packets. The opcode of a packet is the one-character
  string \<open>String.fromCharCode(byte)\<close>; it is kept as the byte it is made from.
\<close>

type_synonym byte = "8 word"

record ParsedPkt =
  opcode :: byte
  payload :: "byte list"

text \<open>
  One turn of the \<open>while\<close> loop of \<open>parsePackets\<close> ends in one of three ways: the function
  returns (\<open>Return\<close>, with the buffer it leaves), the turn ends in \<open>continue\<close> after dropping
  a byte (\<open>Dropped\<close>), or a packet is pushed and \<open>packetsProcessed\<close> is incremented
  (\<open>Parsed\<close>).
\<close>

datatype turn = Return "byte list" | Dropped "byte list" | Parsed ParsedPkt "byte list"

text \<open>
  \<open>Buffer.toString('ascii')\<close> clears the top bit of every byte before the regular
  expression \<open>/^[0-9A-Fa-f]{4}$/\<close> sees it.
\<close>

definition asciiChar :: "byte \<Rightarrow> byte" where
  "asciiChar b = b AND 0x7F"

definition isHexDigit :: "byte \<Rightarrow> bool" where
  "isHexDigit c \<longleftrightarrow>
     (0x30 \<le> c \<and> c \<le> 0x39) \<or> (0x41 \<le> c \<and> c \<le> 0x46) \<or> (0x61 \<le> c \<and> c \<le> 0x66)"

definition hexValue :: "byte \<Rightarrow> nat" where
  "hexValue c =
     (if c \<le> 0x39 then unat c - 0x30
      else if c \<le> 0x46 then unat c - 0x41 + 10
      else unat c - 0x61 + 10)"

text \<open>\<open>parseInt(sizeHex, 16)\<close> on a string of hexadecimal digits.\<close>

definition parseIntHex :: "byte list \<Rightarrow> nat" where
  "parseIntHex cs = foldl (\<lambda>acc c. 16 * acc + hexValue c) 0 cs"

text \<open>\<open>buf.slice(a, b)\<close>: indices beyond the end are clamped.\<close>

definition slice :: "nat \<Rightarrow> nat \<Rightarrow> 'a list \<Rightarrow> 'a list" where
  "slice a b xs = take (b - a) (drop a xs)"

text \<open>The local \<open>sizeHex\<close>: bytes 1 to 4 of the buffer, decoded as ASCII.\<close>

definition sizeHex :: "byte list \<Rightarrow> byte list" where
  "sizeHex buf = map asciiChar (slice 1 5 buf)"

text \<open>
  The tail of a turn, from the bounds check \<open>opcodeOffset >= length || ...\<close> to
  \<open>packetsProcessed++\<close>. The \<open>try\<close> block of the loop body calls nothing that throws, so
  its \<open>catch\<close> branch is never taken and has no counterpart here.
\<close>

definition emitPacket :: "byte list \<Rightarrow> nat \<Rightarrow> nat \<Rightarrow> nat \<Rightarrow> nat \<Rightarrow> turn" where
  "emitPacket buf totalLen opcodeOffset payloadOffset payloadLen =
     (if opcodeOffset \<ge> length buf \<or> payloadOffset > length buf
         \<or> payloadOffset + payloadLen > length buf
      then Dropped (drop 1 buf)
      else Parsed \<lparr>opcode = buf ! opcodeOffset,
                   payload = slice payloadOffset (payloadOffset + payloadLen) buf\<rparr>
                  (drop totalLen buf))"

text \<open>
  The part of a turn after resynchronisation: \<open>buf\<close> has at least two bytes.
  \<open>Math.max(0, size - 2)\<close> and \<open>Math.max(0, size - sizeFieldLen - 1)\<close> are the truncating
  subtraction of \<open>nat\<close>.
\<close>

definition framed :: "byte list \<Rightarrow> turn" where
  "framed buf =
     (let szByte = buf ! 1 in
      if 0x41 \<le> szByte \<and> szByte \<le> 0x5A then
        (let size = (unat szByte - 0x41) + 1;
             totalLen = 1 + size
         in if length buf < totalLen then Return buf
            else emitPacket buf totalLen 2 3 (size - 2))
      else if length buf < 6 then Return buf
      else
        (if \<not> list_all isHexDigit (sizeHex buf) then Dropped (drop 1 buf)
         else
           (let size = parseIntHex (sizeHex buf) in
            if size > 65535 \<or> size < 5 then Dropped (drop 1 buf)
            else
              (let totalLen = 1 + size + 1
               in if length buf < totalLen then Return buf
                  else emitPacket buf totalLen 5 7 (size - 4 - 1)))))"

text \<open>
  One whole turn. \<open>indexOf(0x2A)\<close> is \<open>-1\<close> exactly when the marker does not occur;
  otherwise \<open>slice(syncIndex)\<close> drops the bytes before the first marker.
\<close>

definition parseTurn :: "byte list \<Rightarrow> turn" where
  "parseTurn buf =
     (if length buf < 2 then Return buf
      else if buf ! 0 \<noteq> 0x2A then
        (if 0x2A \<notin> set buf then Return []
         else (let buf' = dropWhile (\<lambda>b. b \<noteq> 0x2A) buf
               in if length buf' < 2 then Return buf' else framed buf'))
      else framed buf)"

lemma emitPacket_shorter:
  assumes "0 < totalLen" and "buf \<noteq> []"
  shows "emitPacket buf totalLen oo po pl = Dropped b \<Longrightarrow> length b < length buf"
    and "emitPacket buf totalLen oo po pl = Parsed p b \<Longrightarrow> length b < length buf"
  using assms by (auto simp: emitPacket_def split: if_splits)

lemma framed_shorter:
  assumes "buf \<noteq> []"
  shows "framed buf = Dropped b \<Longrightarrow> length b < length buf"
    and "framed buf = Parsed p b \<Longrightarrow> length b < length buf"
  using assms unfolding framed_def Let_def
  by (auto split: if_splits dest: emitPacket_shorter [rotated 2])

lemma parseTurn_framed:
  assumes "parseTurn buf = t" and "\<forall>b. t \<noteq> Return b"
  shows "\<exists>buf'. buf' \<noteq> [] \<and> length buf' \<le> length buf \<and> framed buf' = t"
proof (cases "buf ! 0 = 0x2A")
  case True
  with assms have "framed buf = t" "buf \<noteq> []"
    by (auto simp: parseTurn_def split: if_splits)
  then show ?thesis by auto
next
  case False
  let ?buf' = "dropWhile (\<lambda>b. b \<noteq> 0x2A) buf"
  from assms False have "framed ?buf' = t" "?buf' \<noteq> []"
    by (auto simp: parseTurn_def Let_def split: if_splits)
  moreover have "length ?buf' \<le> length buf" by (rule length_dropWhile_le)
  ultimately show ?thesis by blast
qed

lemma parseTurn_shorter:
  shows "parseTurn buf = Dropped b \<Longrightarrow> length b < length buf"
    and "parseTurn buf = Parsed p b \<Longrightarrow> length b < length buf"
proof -
  assume "parseTurn buf = Dropped b"
  from parseTurn_framed [OF this] obtain buf' where
    "buf' \<noteq> []" "length buf' \<le> length buf" "framed buf' = Dropped b" by auto
  with framed_shorter(1) [of buf' b] show "length b < length buf" by simp
next
  assume "parseTurn buf = Parsed p b"
  from parseTurn_framed [OF this] obtain buf' where
    "buf' \<noteq> []" "length buf' \<le> length buf" "framed buf' = Parsed p b" by auto
  with framed_shorter(2) [of buf' p b] show "length b < length buf" by simp
qed

text \<open>
  The loop \<open>while (packetsProcessed < MAX_PACKETS_PER_CALL)\<close>, on the pair of buffer and
  queue. Every turn that does not return shortens the buffer.
\<close>

function parseLoop :: "nat \<Rightarrow> byte list \<Rightarrow> ParsedPkt list \<Rightarrow> byte list \<times> ParsedPkt list" where
  "parseLoop packetsProcessed buf queue =
     (if packetsProcessed < 10 then
        (case parseTurn buf of
           Return b \<Rightarrow> (b, queue)
         | Dropped b \<Rightarrow> parseLoop packetsProcessed b queue
         | Parsed p b \<Rightarrow> parseLoop (packetsProcessed + 1) b (queue @ [p]))
      else (buf, queue))"
  by pat_completeness auto
termination
  by (relation "measure (\<lambda>(n, buf, q). length buf)") (auto dest: parseTurn_shorter)

definition parsePackets :: "byte list \<times> ParsedPkt list \<Rightarrow> byte list \<times> ParsedPkt list" where
  "parsePackets s = parseLoop 0 (fst s) (snd s)"

text \<open>
  A well-formed compact frame, as a byte list: the sync marker, a size letter \<open>A\<close> to \<open>Z\<close>,
  the opcode byte, and a payload of \<open>size - 2\<close> bytes where \<open>size = letter - 'A' + 1\<close>.
  The arithmetic is on integers, so that no frame has the letter \<open>A\<close> (its payload would have
  \<open>-1\<close> bytes). \<open>packetOf\<close> is the packet a frame stands for.
\<close>

fun compactFrame :: "byte list \<Rightarrow> bool" where
  "compactFrame (sync # letter # opc # pl) \<longleftrightarrow>
     sync = 0x2A \<and> 0x41 \<le> letter \<and> letter \<le> 0x5A \<and>
     int (length pl) = (int (unat letter) - 0x41 + 1) - 2"
| "compactFrame _ \<longleftrightarrow> False"

definition packetOf :: "byte list \<Rightarrow> ParsedPkt" where
  "packetOf f = \<lparr>opcode = f ! 2, payload = drop 3 f\<rparr>"

section \<open>Request/response matcher: \<open>dequeueIf\<close> and \<open>readPacket\<close>\<close>

text \<open>
  The errors the modelled functions throw, one constructor for each \<open>throw new Error(...)\<close>
  site (the message text is in the comment).
\<close>

datatype error =
    TimeoutWaitingForOpcode byte  \<comment> \<open>\<open>Timeout waiting for opcode X\<close>, \<open>readPacket\<close>\<close>
  | PacketTooLarge nat  \<comment> \<open>\<open>Packet too large for small packet format\<close>, \<open>writePacket\<close>\<close>
  | DisconnectedBeforeWrite  \<comment> \<open>\<open>Device disconnected before packet write\<close>, \<open>writePacket\<close>\<close>
  | WriteError  \<comment> \<open>the error of the link's write call, rethrown by \<open>writePacket\<close>\<close>
  | DisconnectedBeforeAuthentication  \<comment> \<open>\<open>Device disconnected before authentication\<close>\<close>
  | AuthenticationFailed string  \<comment> \<open>\<open>Authentication failed - invalid response: ...\<close>\<close>
  | AuthenticationAborted  \<comment> \<open>\<open>Authentication aborted due to logout cleanup\<close>\<close>
  | ConnectionAborted  \<comment> \<open>\<open>Connection aborted\<close> and \<open>Connection aborted due to logout cleanup\<close>\<close>
  | ConnectionInProgress  \<comment> \<open>\<open>Connection operation already in progress\<close>\<close>
  | AlreadyConnecting  \<comment> \<open>\<open>Connection already in progress or connected\<close>\<close>
  | FileSystemError  \<comment> \<open>an error thrown by a call of expo-file-system\<close>
  | PhaseError string  \<comment> \<open>an error thrown by a phase or collaborator that is not modelled further\<close>

text \<open>\<open>Array.prototype.findIndex\<close>, with \<open>None\<close> for \<open>-1\<close>.\<close>

fun findIndex :: "('a \<Rightarrow> bool) \<Rightarrow> 'a list \<Rightarrow> nat option" where
  "findIndex P [] = None"
| "findIndex P (x # xs) = (if P x then Some 0 else map_option Suc (findIndex P xs))"

text \<open>\<open>dequeueIf\<close> returns the packet (or \<open>null\<close>) and leaves the queue spliced.\<close>

definition dequeueIf :: "byte \<Rightarrow> ParsedPkt list \<Rightarrow> ParsedPkt option \<times> ParsedPkt list" where
  "dequeueIf op queue =
     (case findIndex (\<lambda>p. opcode p = op) queue of
        Some idx \<Rightarrow> (Some (queue ! idx), take idx queue @ drop (idx + 1) queue)
      | None \<Rightarrow> (None, queue))"

text \<open>
  \<open>delay(ms)\<close> is \<open>new Promise(res => setTimeout(res, ms))\<close>: the promise resolves no
  earlier than \<open>ms\<close> milliseconds after the call, and as much later as the timer and the
  other work of the event loop make it. \<open>delay ms late\<close> is the time such a sleep takes
  when it resolves \<open>late\<close> milliseconds behind.
\<close>

definition delay :: "int \<Rightarrow> nat \<Rightarrow> int" where
  "delay ms late = ms + int late"

text \<open>
  \<open>readPacket\<close> polls the queue. Time is the program's own clock in milliseconds:
  \<open>now\<close> is the reading of \<open>Date.now()\<close>, and the \<open>k\<close>-th \<open>await delay(10)\<close> of the call
  moves it on by \<open>delay 10 (late k)\<close>. While the call sleeps, the notification handler
  may push packets: \<open>arrivals k\<close> are the packets pushed during the \<open>k\<close>-th sleep of this
  call. The result is the payload or the error thrown, the queue left behind, and the
  clock at that moment.
\<close>

function readPacket_poll ::
  "(nat \<Rightarrow> ParsedPkt list) \<Rightarrow> (nat \<Rightarrow> nat) \<Rightarrow> byte \<Rightarrow> int \<Rightarrow> int \<Rightarrow> nat \<Rightarrow> int \<Rightarrow> ParsedPkt list
   \<Rightarrow> (error + byte list) \<times> ParsedPkt list \<times> int" where
  "readPacket_poll arrivals late expectedOpcode timeout start k now queue =
     (case dequeueIf expectedOpcode queue of
        (Some pkt, queue') \<Rightarrow> (Inr (payload pkt), queue', now)
      | (None, queue') \<Rightarrow>
          (let elapsed = now - start in
           if elapsed > timeout then (Inl (TimeoutWaitingForOpcode expectedOpcode), queue', now)
           else readPacket_poll arrivals late expectedOpcode timeout start (k + 1)
                  (now + delay 10 (late k)) (queue' @ arrivals k)))"
  by pat_completeness auto
termination
  by (relation "measure (\<lambda>(arrivals, late, opc, timeout, start, k, now, queue).
                  nat (timeout - (now - start) + 1))") (auto simp: delay_def)

declare readPacket_poll.simps [simp del]

definition readPacket ::
  "(nat \<Rightarrow> ParsedPkt list) \<Rightarrow> (nat \<Rightarrow> nat) \<Rightarrow> byte \<Rightarrow> int \<Rightarrow> int \<Rightarrow> ParsedPkt list
   \<Rightarrow> (error + byte list) \<times> ParsedPkt list \<times> int" where
  "readPacket arrivals late expectedOpcode timeout now queue =
     readPacket_poll arrivals late expectedOpcode timeout now 0 now queue"

text \<open>
  For stating properties: \<open>pollTime late n\<close> is the time that has elapsed since the call
  when the loop tests the queue for the \<open>n\<close>-th time after the first, that is after \<open>n\<close>
  sleeps.
\<close>

fun pollTime :: "(nat \<Rightarrow> nat) \<Rightarrow> nat \<Rightarrow> int" where
  "pollTime late 0 = 0"
| "pollTime late (Suc n) = pollTime late n + delay 10 (late n)"

section \<open>File records and time stamps\<close>

text \<open>
  \<open>FileInfo\<close> of BLEContext.tsx; the field \<open>size\<close> is called \<open>fsize\<close> here, and a
  \<open>Date\<close> is its time value, the milliseconds since the epoch.
\<close>

record FileInfo =
  fileName :: string
  fsize :: nat
  timestamp :: int

text \<open>
  \<open>Date.UTC\<close> is a built-in of the JavaScript runtime. It is written out after
  ECMAScript's \<open>MakeDay\<close>, \<open>MakeTime\<close> and \<open>MakeDate\<close>; months and days out of range
  carry over, as they do there. The years that reach it are 2000 to 2099.
\<close>

definition DayFromYear :: "int \<Rightarrow> int" where
  "DayFromYear y = 365 * (y - 1970) + (y - 1969) div 4 - (y - 1901) div 100 + (y - 1601) div 400"

definition InLeapYear :: "int \<Rightarrow> bool" where
  "InLeapYear y \<longleftrightarrow> y mod 4 = 0 \<and> (y mod 100 \<noteq> 0 \<or> y mod 400 = 0)"

definition daysBeforeMonth :: "bool \<Rightarrow> nat \<Rightarrow> int" where
  "daysBeforeMonth leap mn =
     [0, 31, 59, 90, 120, 151, 181, 212, 243, 273, 304, 334] ! mn + (if leap \<and> 2 \<le> mn then 1 else 0)"

definition MakeDay :: "int \<Rightarrow> int \<Rightarrow> int \<Rightarrow> int" where
  "MakeDay year month date =
     (let ym = year + month div 12; mn = nat (month mod 12)
      in DayFromYear ym + daysBeforeMonth (InLeapYear ym) mn + date - 1)"

definition Date_UTC :: "int \<Rightarrow> int \<Rightarrow> int \<Rightarrow> int \<Rightarrow> int \<Rightarrow> int \<Rightarrow> int" where
  "Date_UTC year month date hours minutes seconds =
     MakeDay year month date * 86400000 + hours * 3600000 + minutes * 60000 + seconds * 1000"

text \<open>
  \<open>parseYYMMDDhhmmss\<close>. The regular expression \<open>/_(\d{12})\.csv$/\<close> matches when the
  name ends in an underscore, twelve decimal digits and \<open>.csv\<close>; \<open>matchStamp\<close> returns the
  captured digits. \<open>parseInt(\<dots>, 10)\<close> is applied to strings of digits only.
\<close>

definition isDigit :: "char \<Rightarrow> bool" where
  "isDigit c \<longleftrightarrow> c \<in> set ''0123456789''"

definition digitValue :: "char \<Rightarrow> int" where
  "digitValue c = int (of_char c) - 48"

definition parseInt10 :: "string \<Rightarrow> int" where
  "parseInt10 ds = foldl (\<lambda>acc c. 10 * acc + digitValue c) 0 ds"

definition endsWith :: "string \<Rightarrow> string \<Rightarrow> bool" where
  "endsWith s suffix \<longleftrightarrow> length suffix \<le> length s \<and> drop (length s - length suffix) s = suffix"

definition matchStamp :: "string \<Rightarrow> string option" where
  "matchStamp name =
     (let n = length name in
      if 17 \<le> n \<and> name ! (n - 17) = CHR ''_'' \<and> list_all isDigit (slice (n - 16) (n - 4) name)
         \<and> endsWith name ''.csv''
      then Some (slice (n - 16) (n - 4) name) else None)"

definition parseYYMMDDhhmmss :: "string \<Rightarrow> int option" where
  "parseYYMMDDhhmmss name =
     (case matchStamp name of
        None \<Rightarrow> None
      | Some s \<Rightarrow>
          (let yy = 2000 + parseInt10 (slice 0 2 s);
               MM = parseInt10 (slice 2 4 s) - 1;
               dd = parseInt10 (slice 4 6 s);
               hh = parseInt10 (slice 6 8 s);
               mm = parseInt10 (slice 8 10 s);
               ss = parseInt10 (slice 10 12 s)
           in Some (Date_UTC yy MM dd hh mm ss)))"


section \<open>Storage collaborator: DataService.ts\<close>

text \<open>
  The data directory is the list of its files, in the order \<open>readDirectoryAsync\<close> lists
  them; file names in a directory are distinct. \<open>writeAsString\<close> stands for
  \<open>FileSystem.writeAsStringAsync\<close>, which overwrites a file of that name or creates one;
  \<open>now\<close> becomes its modification time. \<open>parseTimestampFromFileName\<close> is a copy of
  \<open>parseYYMMDDhhmmss\<close> in the source. \<open>localFileInfo\<close> is the object \<open>getStoredFiles\<close>
  builds for one file: the time stamp comes from the file name and falls back to the
  modification time. \<open>Array.prototype.sort\<close> is stable, as \<open>sort_key\<close> is.
  \<open>getStoredFiles\<close>, \<open>getLocalFileNames\<close> and \<open>deleteFile\<close> are what these functions do
  when the calls of expo-file-system inside them succeed.
\<close>

record StoredFile =
  name :: string
  content :: string
  modificationTime :: int

type_synonym directory = "StoredFile list"

definition parseTimestampFromFileName :: "string \<Rightarrow> int option" where
  "parseTimestampFromFileName fname = parseYYMMDDhhmmss fname"

definition localFileInfo :: "StoredFile \<Rightarrow> FileInfo" where
  "localFileInfo f =
     \<lparr>fileName = name f, fsize = length (content f),
      timestamp = (case parseTimestampFromFileName (name f) of
                     Some t \<Rightarrow> t | None \<Rightarrow> modificationTime f)\<rparr>"

definition getStoredFiles :: "directory \<Rightarrow> FileInfo list" where
  "getStoredFiles dir =
     sort_key (\<lambda>i. - timestamp i)
       (map localFileInfo (filter (\<lambda>f. endsWith (name f) ''.csv'') dir))"

definition deleteFile :: "string \<Rightarrow> directory \<Rightarrow> directory" where
  "deleteFile fname dir = filter (\<lambda>f. name f \<noteq> fname) dir"

text \<open>
  The calls of expo-file-system can throw. What they do while one call of \<open>storeFile\<close>
  runs is a record of \<open>faults\<close>:
  \<^item> \<open>writeFails\<close>: \<open>ensureDirectoryExists\<close> or \<open>writeAsStringAsync\<close> throws; \<open>storeFile\<close>
    catches the error, logs it and throws it again;
  \<^item> \<open>listFails\<close>: a call inside \<open>getStoredFiles\<close> throws; \<open>getStoredFiles\<close> catches the
    error and returns the empty array;
  \<^item> \<open>deleteFails\<close>: the names of the files for which \<open>getInfoAsync\<close> or \<open>deleteAsync\<close>
    throws inside \<open>deleteFile\<close>, which throws the error again.
  The body of \<open>keepOnlyLatestFiles\<close> is one \<open>try\<close> block whose \<open>catch\<close> logs the error and
  returns 0: the first deletion that throws ends the loop over \<open>filesToDelete\<close>, with the
  files deleted before it gone and the others left (\<open>deleteEach\<close>). The number
  \<open>keepOnlyLatestFiles\<close> returns is not used by \<open>storeFile\<close>; the model returns the
  directory it leaves.
\<close>

record faults =
  writeFails :: bool
  listFails :: bool
  deleteFails :: "string list"

fun deleteEach :: "string list \<Rightarrow> FileInfo list \<Rightarrow> directory \<Rightarrow> directory" where
  "deleteEach failing [] dir = dir"
| "deleteEach failing (file # filesToDelete) dir =
     (if fileName file \<in> set failing then dir
      else deleteEach failing filesToDelete (deleteFile (fileName file) dir))"

definition keepOnlyLatestFiles :: "faults \<Rightarrow> nat \<Rightarrow> directory \<Rightarrow> directory" where
  "keepOnlyLatestFiles fs maxFiles dir =
     (let allFiles = (if listFails fs then [] else getStoredFiles dir) in
      if length allFiles \<le> maxFiles then dir
      else deleteEach (deleteFails fs) (drop maxFiles allFiles) dir)"

definition writeAsString :: "string \<Rightarrow> string \<Rightarrow> int \<Rightarrow> directory \<Rightarrow> directory" where
  "writeAsString fname text now dir =
     (if fname \<in> set (map name dir)
      then map (\<lambda>f. if name f = fname then f\<lparr>content := text, modificationTime := now\<rparr> else f) dir
      else dir @ [\<lparr>name = fname, content = text, modificationTime = now\<rparr>])"

definition storeFile ::
  "faults \<Rightarrow> string \<Rightarrow> string \<Rightarrow> int \<Rightarrow> directory \<Rightarrow> error + directory" where
  "storeFile fs fname text now dir =
     (if writeFails fs then Inl FileSystemError
      else Inr (keepOnlyLatestFiles fs 10 (writeAsString fname text now dir)))"

text \<open>A file system on which every call succeeds.\<close>

definition noFaults :: faults where
  "noFaults = \<lparr>writeFails = False, listFails = False, deleteFails = []\<rparr>"

definition getLocalFileNames :: "directory \<Rightarrow> string set" where
  "getLocalFileNames dir = set (filter (\<lambda>n. endsWith n ''.csv'') (map name dir))"

section \<open>File catalog reconciler: \<open>downloadFiles\<close> and \<open>downloadNewFilesOnly\<close>\<close>

text \<open>
  The reconciler talks to the link and to collaborators. What they answer in the turn of
  the loop with index \<open>fileIndex\<close> is the \<open>step\<close> for that index:
  \<^item> \<open>reply\<close>: \<open>readPacket('F', \<dots>)\<close> timed out (\<open>NoReply\<close>), or returned a payload that
    \<open>JSON.parse\<close> rejects (\<open>BadJson\<close>), or one that parses but carries no string
    \<open>FileName\<close>, so that \<open>name.match\<close> throws a TypeError outside every inner \<open>try\<close>
    (\<open>Nameless\<close>), or one with \<open>FileName\<close> and \<open>FileSizeEstimate\<close> (\<open>FileEntry\<close>);
  \<^item> \<open>linkUp\<close>: the result of \<open>device.isConnected()\<close> (asked in the full pass only);
  \<^item> \<open>clock\<close>: the reading of \<open>Date.now()\<close>;
  \<^item> \<open>nextError\<close>: the error \<open>writePacket(device, 'N', '')\<close> throws, if it throws;
  \<^item> \<open>chunks\<close>: what \<open>downloadFilePythonStyle\<close> returns (it never throws);
  \<^item> \<open>csv\<close>: the decompressed text, \<open>None\<close> when decoding throws;
  \<^item> \<open>storing\<close>: what the file system does during \<open>storeFile\<close>.
  The \<open>trace\<close> records, in order, each call of \<open>writePacket\<close> (by opcode), each call of
  \<open>downloadFilePythonStyle\<close> (\<open>Fetch\<close>) and each completed \<open>storeFile\<close> (\<open>Store\<close>).
  A turn ends in \<open>continue\<close> (or falls through to the next turn), in \<open>break\<close>, or in an
  exception that leaves the loop.
\<close>

datatype reply = NoReply | BadJson | Nameless | FileEntry string nat

record step =
  reply :: reply
  linkUp :: bool
  clock :: int
  nextError :: "error option"
  chunks :: "byte list list"
  csv :: "string option"
  storing :: faults

datatype action = Write byte | Fetch string | Store string

record sync =
  files :: "FileInfo list"
  trace :: "action list"
  disk :: directory

datatype outcome = Continue sync | Break sync | Throw error sync

text \<open>The sequence \<open>await writePacket(device, 'N', ''); fileIndex++; continue\<close>.\<close>

definition writeNext :: "step \<Rightarrow> sync \<Rightarrow> outcome" where
  "writeNext s st =
     (let st' = st\<lparr>trace := trace st @ [Write 0x4E]\<rparr>
      in case nextError s of None \<Rightarrow> Continue st' | Some e \<Rightarrow> Throw e st')"

text \<open>The test \<open>!ts || (Date.now() - ts.getTime()) > hours * 3600 * 1000\<close>.\<close>

definition tooOld :: "int \<Rightarrow> int \<Rightarrow> string \<Rightarrow> bool" where
  "tooOld hours now fname =
     (case parseYYMMDDhhmmss fname of
        None \<Rightarrow> True
      | Some ts \<Rightarrow> now - ts > hours * 3600 * 1000)"

definition downloadFiles_entry :: "string set \<Rightarrow> step \<Rightarrow> sync \<Rightarrow> outcome" where
  "downloadFiles_entry localFileNames s st =
     (case reply s of
        NoReply \<Rightarrow> Break st
      | BadJson \<Rightarrow> if \<not> linkUp s then Break st else writeNext s st
      | Nameless \<Rightarrow> if \<not> linkUp s then Break st else Throw (PhaseError ''TypeError'') st
      | FileEntry fname sizeEst \<Rightarrow>
          if \<not> linkUp s then Break st
          else
            (case parseYYMMDDhhmmss fname of
               None \<Rightarrow> writeNext s st
             | Some ts \<Rightarrow>
                 if clock s - ts > 72 * 3600 * 1000 then writeNext s st
                 else if fname \<in> localFileNames then
                   writeNext s
                     (st\<lparr>files := files st @ [\<lparr>fileName = fname, fsize = sizeEst, timestamp = ts\<rparr>]\<rparr>)
                 else
                   (let st1 = st\<lparr>trace := trace st @ [Fetch fname]\<rparr>;
                        st2 = (if chunks s \<noteq> [] then
                                 (case csv s of
                                    Some text \<Rightarrow>
                                      (case storeFile (storing s) fname text (clock s) (disk st1) of
                                         Inr dir \<Rightarrow>
                                           st1\<lparr>disk := dir,
                                               files := files st1 @
                                                 [\<lparr>fileName = fname, fsize = sizeEst, timestamp = ts\<rparr>],
                                               trace := trace st1 @ [Store fname]\<rparr>
                                       | Inl processingError \<Rightarrow> st1)
                                  | None \<Rightarrow> st1)
                               else st1);
                        st3 = st2\<lparr>trace := trace st2 @ [Write 0x4E]\<rparr>
                    in case nextError s of None \<Rightarrow> Continue st3 | Some e \<Rightarrow> Break st3)))"

function downloadFiles_loop :: "string set \<Rightarrow> (nat \<Rightarrow> step) \<Rightarrow> nat \<Rightarrow> sync \<Rightarrow> error option \<times> sync" where
  "downloadFiles_loop localFileNames script fileIndex st =
     (if fileIndex < 25 then
        (case downloadFiles_entry localFileNames (script fileIndex) st of
           Continue st' \<Rightarrow> downloadFiles_loop localFileNames script (fileIndex + 1) st'
         | Break st' \<Rightarrow> (None, st')
         | Throw e st' \<Rightarrow> (Some e, st'))
      else (None, st))"
  by pat_completeness auto
termination
  by (relation "measure (\<lambda>(l, script, fileIndex, st). 25 - fileIndex)") auto

declare downloadFiles_loop.simps [simp del]

text \<open>
  What a whole pass meets: the arguments and session state \<open>downloadFiles\<close> looks at, the
  error of \<open>writePacket(device, 'F', '')\<close> if it throws, whether an \<open>E\<close> packet is queued
  100 ms after the list command (\<open>immediateE\<close>, incremental pass only), and the steps.
\<close>

record pass =
  deviceOverride :: bool
  stateDevice :: bool
  stateConnected :: bool
  syncingFiles :: bool
  listError :: "error option"
  immediateE :: bool
  steps :: "nat \<Rightarrow> step"

definition downloadFiles ::
  "pass \<Rightarrow> directory \<Rightarrow> (error + FileInfo list option) \<times> action list \<times> directory" where
  "downloadFiles env dir0 =
     (let device = deviceOverride env \<or> stateDevice env;
          connected = (if deviceOverride env then True else stateConnected env)
      in if \<not> connected \<or> \<not> device then (Inr None, [], dir0)
         else if syncingFiles env then (Inr None, [], dir0)
         else
           (let localFileNames = getLocalFileNames dir0 in
            case listError env of
              Some e \<Rightarrow> (Inl e, [Write 0x46], dir0)
            | None \<Rightarrow>
                (case downloadFiles_loop localFileNames (steps env) 0
                        \<lparr>files = [], trace = [Write 0x46], disk = dir0\<rparr> of
                   (Some e, st) \<Rightarrow> (Inl e, trace st, disk st)
                 | (None, st) \<Rightarrow>
                     (let localFiles = getStoredFiles (disk st);
                          deviceFileNames = set (map fileName (files st))
                      in (Inr (Some (files st @
                                     filter (\<lambda>localFile. fileName localFile \<notin> deviceFileNames)
                                       localFiles)),
                          trace st, disk st)))))"

definition downloadNewFilesOnly_entry :: "string set \<Rightarrow> step \<Rightarrow> sync \<Rightarrow> outcome" where
  "downloadNewFilesOnly_entry localFileNames s st =
     (case reply s of
        NoReply \<Rightarrow> Break st
      | BadJson \<Rightarrow> Break st
      | Nameless \<Rightarrow> Throw (PhaseError ''TypeError'') st
      | FileEntry fname sizeEst \<Rightarrow>
          if fname \<in> localFileNames then writeNext s st
          else
            (case parseYYMMDDhhmmss fname of
               None \<Rightarrow> writeNext s st
             | Some ts \<Rightarrow>
                 if clock s - ts > 48 * 3600 * 1000 then writeNext s st
                 else
                   (let st1 = st\<lparr>trace := trace st @ [Fetch fname]\<rparr>
                    in if chunks s \<noteq> [] then
                         (case csv s of
                            None \<Rightarrow> Throw (PhaseError ''decode'') st1
                          | Some text \<Rightarrow>
                              (case storeFile (storing s) fname text (clock s) (disk st1) of
                                 Inl e \<Rightarrow> Throw e st1
                               | Inr dir \<Rightarrow>
                                   writeNext s
                                     (st1\<lparr>disk := dir,
                                          files := files st1 @
                                            [\<lparr>fileName = fname, fsize = sizeEst, timestamp = ts\<rparr>],
                                          trace := trace st1 @ [Store fname]\<rparr>)))
                       else writeNext s st1)))"

function downloadNewFilesOnly_loop ::
  "string set \<Rightarrow> (nat \<Rightarrow> step) \<Rightarrow> nat \<Rightarrow> sync \<Rightarrow> error option \<times> sync" where
  "downloadNewFilesOnly_loop localFileNames script fileIndex st =
     (if fileIndex < 20 then
        (case downloadNewFilesOnly_entry localFileNames (script fileIndex) st of
           Continue st' \<Rightarrow> downloadNewFilesOnly_loop localFileNames script (fileIndex + 1) st'
         | Break st' \<Rightarrow> (None, st')
         | Throw e st' \<Rightarrow> (Some e, st'))
      else (None, st))"
  by pat_completeness auto
termination
  by (relation "measure (\<lambda>(l, script, fileIndex, st). 20 - fileIndex)") auto

declare downloadNewFilesOnly_loop.simps [simp del]

definition downloadNewFilesOnly :: "pass \<Rightarrow> directory \<Rightarrow> FileInfo list \<times> action list \<times> directory" where
  "downloadNewFilesOnly env dir0 =
     (let localFileNames = getLocalFileNames dir0 in
      case listError env of
        Some e \<Rightarrow> ([], [Write 0x46], dir0)
      | None \<Rightarrow>
          if immediateE env then ([], [Write 0x46], dir0)
          else
            (case downloadNewFilesOnly_loop localFileNames (steps env) 0
                    \<lparr>files = [], trace = [Write 0x46], disk = dir0\<rparr> of
               (Some e, st) \<Rightarrow> ([], trace st, disk st)
             | (None, st) \<Rightarrow> (files st, trace st, disk st)))"

text \<open>
  For stating properties: \<open>final\<close> is the state a turn ends in, whichever way it ends, and
  \<open>fetched maxFiles hours localFileNames script i a\<close> says that the action \<open>a\<close> is the fetch
  or the store of a file that the script lists at an index from \<open>i\<close> on, under a name that
  is not in \<open>localFileNames\<close> and that is not too old at that step's clock reading.
\<close>

fun final :: "outcome \<Rightarrow> sync" where
  "final (Continue st) = st"
| "final (Break st) = st"
| "final (Throw e st) = st"

definition fetched :: "nat \<Rightarrow> int \<Rightarrow> string set \<Rightarrow> (nat \<Rightarrow> step) \<Rightarrow> nat \<Rightarrow> action \<Rightarrow> bool" where
  "fetched maxFiles hours localFileNames script i a \<longleftrightarrow>
     (\<exists>j fname sz. i \<le> j \<and> j < maxFiles \<and> reply (script j) = FileEntry fname sz \<and>
        (a = Fetch fname \<or> a = Store fname) \<and> fname \<notin> localFileNames \<and>
        \<not> tooOld hours (clock (script j)) fname)"

text \<open>
  For the repetition of a pass: \<open>isStore\<close> picks the completed stores out of a trace.
  \<open>turned s st st'\<close> lists the two ways a turn with step \<open>s\<close> can take the state \<open>st\<close> to
  \<open>st'\<close>: it leaves the directory alone and stores nothing, or it fetches one file whose
  name carries a time stamp, stores it, and asks for the next entry. \<open>kept c0 L0 st\<close> says
  that no file has left the directory since the state in which it held \<open>c0\<close> CSV files
  with the names \<open>L0\<close>: the directory holds no more CSV files than \<open>c0\<close> plus the stores of
  the trace, and their names are \<open>L0\<close> and the stored names.
\<close>

fun isStore :: "action \<Rightarrow> bool" where
  "isStore (Store n) = True"
| "isStore _ = False"


definition kept :: "nat \<Rightarrow> string set \<Rightarrow> sync \<Rightarrow> bool" where
  "kept c0 L0 st \<longleftrightarrow>
     length (getStoredFiles (disk st)) \<le> c0 + length (filter isStore (trace st)) \<and>
     getLocalFileNames (disk st) = L0 \<union> {n. Store n \<in> set (trace st)}"

text \<open>
  Sample inputs for the worked examples: two file names stamped 2024-01-01 00:00:00 and
  01:00:00 UTC, a step whose clock reads more than 92 hours after the first stamp, steps
  whose clock reads 02:00:00 of that day, a pass over a device that lists the given names
  in order and then falls silent, the reconciler's state after the list command, a
  directory holding the given names, and ten names stamped at midnight of ten successive days.
\<close>

definition sampleName :: string where
  "sampleName = ''M_240101000000.csv''"


definition staleStep :: step where
  "staleStep = \<lparr>reply = FileEntry sampleName 100, linkUp = True, clock = 1704400000000,
                nextError = None, chunks = [ [1] ], csv = Some ''t,p'',
                storing = noFaults\<rparr>"

definition freshStep :: "string \<Rightarrow> step" where
  "freshStep fname = \<lparr>reply = FileEntry fname 100, linkUp = True, clock = 1704074400000,
                nextError = None, chunks = [ [1] ], csv = Some ''t,p'',
                storing = noFaults\<rparr>"

definition silentStep :: step where
  "silentStep = \<lparr>reply = NoReply, linkUp = True, clock = 1704074400000,
                 nextError = None, chunks = [], csv = None, storing = noFaults\<rparr>"

definition listed :: "string list \<Rightarrow> pass" where
  "listed names =
     \<lparr>deviceOverride = True, stateDevice = False, stateConnected = False,
      syncingFiles = False, listError = None, immediateE = False,
      steps = (\<lambda>i. if i < length names then freshStep (names ! i) else silentStep)\<rparr>"

definition afterList :: "directory \<Rightarrow> sync" where
  "afterList d = \<lparr>files = [], trace = [Write 0x46], disk = d\<rparr>"

definition stored :: "string list \<Rightarrow> directory" where
  "stored names = map (\<lambda>n. \<lparr>name = n, content = ''t,p'', modificationTime = 0\<rparr>) names"

definition tenNames :: "string list" where
  "tenNames =
     [''M_240101000000.csv'', ''M_240102000000.csv'', ''M_240103000000.csv'',
      ''M_240104000000.csv'', ''M_240105000000.csv'', ''M_240106000000.csv'',
      ''M_240107000000.csv'', ''M_240108000000.csv'', ''M_240109000000.csv'',
      ''M_240110000000.csv'']"



section \<open>Session scheduler: the idle-disconnect and periodic-reconnect timers\<close>

text \<open>
  The runtime's timers. \<open>setTimeout\<close> and \<open>setInterval\<close> hand out fresh identifiers; the
  live timers are the table of identifier and callback. The callbacks are the closures the
  scheduler creates: the idle-disconnect callback of \<open>scheduleAutoDisconnect\<close>, the one of
  \<open>scheduleAutoDisconnectFast\<close>, the interval callback of \<open>startPeriodicReconnect\<close>, and
  the delayed restart of the periodic timer that \<open>autoDisconnectWithDevice\<close> schedules.
  The callback of \<open>scheduleAutoDisconnect\<close> is a closure over the \<open>state\<close> of the render
  that created the function: it carries \<open>state.device\<close> and \<open>state.syncingFiles\<close> as they
  were in that render.
\<close>

datatype callback =
    IdleDisconnect "string option" bool
  | IdleDisconnectFast string
  | PeriodicTick
  | RestartPeriodic

text \<open>
  The mutable state the scheduler's timers work on: \<open>timersRef.current.autoDisconnect\<close>
  and \<open>.periodicReconnect\<close> (\<open>None\<close> for \<open>null\<close>), \<open>activityTracker.current\<close>,
  \<open>state.syncingFiles\<close>, \<open>immediateCleanupRef.current\<close>, \<open>lastConnectedSerialRef.current\<close>,
  \<open>state.device\<close> and \<open>state.connected\<close>, and the opcodes handed to \<open>writePacket\<close> so far.
\<close>

record session =
  timerTable :: "(nat \<times> callback) list"
  nextTimerId :: nat
  autoDisconnect :: "nat option"
  periodicReconnect :: "nat option"
  isDownloading :: bool
  activeOperations :: "string list"
  syncing :: bool
  immediateCleanup :: bool
  lastConnectedSerial :: "string option"
  device :: "string option"
  connected :: bool
  sent :: "byte list"

text \<open>
  \<open>setTimeout\<close>/\<open>setInterval\<close> and \<open>clearTimeout\<close>/\<open>clearInterval\<close>; the new identifier
  is \<open>nextTimerId\<close> of the state before.
\<close>

definition setTimer :: "callback \<Rightarrow> session \<Rightarrow> session" where
  "setTimer cb s = s\<lparr>timerTable := timerTable s @ [(nextTimerId s, cb)],
                      nextTimerId := nextTimerId s + 1\<rparr>"

definition clearTimer :: "nat \<Rightarrow> session \<Rightarrow> session" where
  "clearTimer h s = s\<lparr>timerTable := filter (\<lambda>t. fst t \<noteq> h) (timerTable s)\<rparr>"

text \<open>
  \<open>clearAllTimers\<close>, for the two timers modelled (\<open>reconnectionTimeout\<close> is never set, and
  the status debounce timer has no part in the claims).
\<close>

definition clearAllTimers :: "session \<Rightarrow> session" where
  "clearAllTimers s =
     (let s1 = (case autoDisconnect s of
                  Some h \<Rightarrow> (clearTimer h s)\<lparr>autoDisconnect := None\<rparr> | None \<Rightarrow> s)
      in case periodicReconnect s1 of
           Some h \<Rightarrow> (clearTimer h s1)\<lparr>periodicReconnect := None\<rparr> | None \<Rightarrow> s1)"

definition startPeriodicReconnect :: "session \<Rightarrow> session" where
  "startPeriodicReconnect s =
     (if immediateCleanup s then s
      else
        (let s1 = (case periodicReconnect s of
                     Some h \<Rightarrow> (clearTimer h s)\<lparr>periodicReconnect := None\<rparr> | None \<Rightarrow> s)
         in (setTimer PeriodicTick s1)\<lparr>periodicReconnect := Some (nextTimerId s1)\<rparr>))"

text \<open>
  The interval callback. Under logout cleanup it clears the interval; otherwise it may
  start \<open>performPeriodicReconnect\<close>, which touches no timer by itself (what a connection
  attempt does to the timers later are events of their own below).
\<close>

definition periodicTick :: "session \<Rightarrow> session" where
  "periodicTick s =
     (if immediateCleanup s then
        (case periodicReconnect s of
           Some h \<Rightarrow> (clearTimer h s)\<lparr>periodicReconnect := None\<rparr> | None \<Rightarrow> s)
      else s)"

text \<open>
  \<open>scheduleAutoDisconnect_of dev syn\<close> is the function \<open>scheduleAutoDisconnect\<close> of a
  render in whose \<open>state\<close> the device is \<open>dev\<close> and \<open>syncingFiles\<close> is \<open>syn\<close>. The
  effect that arms the timer calls the function of the current render
  (\<open>scheduleAutoDisconnect\<close>); the timer's callback calls the function it belongs to.
\<close>

definition scheduleAutoDisconnect_of :: "string option \<Rightarrow> bool \<Rightarrow> session \<Rightarrow> session" where
  "scheduleAutoDisconnect_of dev syn s =
     (let s1 = (case autoDisconnect s of Some h \<Rightarrow> clearTimer h s | None \<Rightarrow> s)
      in (setTimer (IdleDisconnect dev syn) s1)\<lparr>autoDisconnect := Some (nextTimerId s1)\<rparr>)"

definition scheduleAutoDisconnect :: "session \<Rightarrow> session" where
  "scheduleAutoDisconnect s = scheduleAutoDisconnect_of (device s) (syncing s) s"

definition scheduleAutoDisconnectFast :: "string \<Rightarrow> session \<Rightarrow> session" where
  "scheduleAutoDisconnectFast dev s =
     (let s1 = (case autoDisconnect s of Some h \<Rightarrow> clearTimer h s | None \<Rightarrow> s)
      in (setTimer (IdleDisconnectFast dev) s1)\<lparr>autoDisconnect := Some (nextTimerId s1)\<rparr>)"

text \<open>
  \<open>dispatch({ type: 'AUTO_DISCONNECT' })\<close>, on the fields kept here.
\<close>

definition dispatchAutoDisconnect :: "session \<Rightarrow> session" where
  "dispatchAutoDisconnect s = s\<lparr>device := None, connected := False, syncing := False\<rparr>"

text \<open>
  \<open>autoDisconnectWithDevice\<close>: with a device it calls \<open>writePacket(device, '.', '')\<close>
  (recorded in \<open>sent\<close> whether or not the write succeeds), severs the link, dispatches
  \<open>AUTO_DISCONNECT\<close> and schedules the restart of the periodic timer.
\<close>

definition autoDisconnectWithDevice :: "string option \<Rightarrow> session \<Rightarrow> session" where
  "autoDisconnectWithDevice dev s =
     (case dev of
        None \<Rightarrow> dispatchAutoDisconnect s
      | Some d \<Rightarrow>
          (let s1 = s\<lparr>sent := sent s @ [0x2E]\<rparr>;
               s2 = dispatchAutoDisconnect s1
           in if lastConnectedSerial s2 \<noteq> None \<and> periodicReconnect s2 = None
                 \<and> \<not> immediateCleanup s2
              then setTimer RestartPeriodic s2 else s2))"

text \<open>
  \<open>startPeriodicReconnect\<close> is local to the provider. Each of its calls is in the callback
  of a \<open>setTimeout\<close>, behind a test that the callback makes right before the call:
  \<^item> \<open>AfterUnexpectedDisconnect\<close>, in the disconnection handler:
    \<open>!timersRef.current.periodicReconnect && lastConnectedSerialRef.current &&
    !immediateCleanupRef.current\<close>;
  \<^item> \<open>AfterDisconnect\<close>, at the end of \<open>autoDisconnect\<close> and of \<open>autoDisconnectWithDevice\<close>:
    \<open>!immediateCleanupRef.current && lastConnectedSerialRef.current &&
    !timersRef.current.periodicReconnect\<close>;
  \<^item> \<open>AfterConnectFailure\<close>, in the \<open>catch\<close> branch of \<open>connect\<close>:
    \<open>!immediateCleanupRef.current && lastConnectedSerialRef.current\<close>;
  \<^item> \<open>OnAppOpen c\<close>, in the effect that runs once after mounting:
    \<open>!immediateCleanupRef.current && !state.connected\<close>, where \<open>c\<close> is \<open>state.connected\<close>
    of the render that effect belongs to;
  \<^item> \<open>AfterAutoConnectFailure\<close> and \<open>OnForeground\<close>, in the handler of app state changes:
    \<open>!immediateCleanupRef.current && !timersRef.current.periodicReconnect\<close>.
  \<open>startGuard\<close> is the test, \<open>delayedStart\<close> the callback.
\<close>

datatype callSite =
    AfterUnexpectedDisconnect
  | AfterDisconnect
  | AfterConnectFailure
  | OnAppOpen bool
  | AfterAutoConnectFailure
  | OnForeground

fun startGuard :: "callSite \<Rightarrow> session \<Rightarrow> bool" where
  "startGuard AfterUnexpectedDisconnect s \<longleftrightarrow>
     periodicReconnect s = None \<and> lastConnectedSerial s \<noteq> None \<and> \<not> immediateCleanup s"
| "startGuard AfterDisconnect s \<longleftrightarrow>
     \<not> immediateCleanup s \<and> lastConnectedSerial s \<noteq> None \<and> periodicReconnect s = None"
| "startGuard AfterConnectFailure s \<longleftrightarrow>
     \<not> immediateCleanup s \<and> lastConnectedSerial s \<noteq> None"
| "startGuard (OnAppOpen c) s \<longleftrightarrow> \<not> immediateCleanup s \<and> \<not> c"
| "startGuard AfterAutoConnectFailure s \<longleftrightarrow>
     \<not> immediateCleanup s \<and> periodicReconnect s = None"
| "startGuard OnForeground s \<longleftrightarrow>
     \<not> immediateCleanup s \<and> periodicReconnect s = None"

definition delayedStart :: "callSite \<Rightarrow> session \<Rightarrow> session" where
  "delayedStart site s = (if startGuard site s then startPeriodicReconnect s else s)"

text \<open>
  The callbacks. The one of \<open>scheduleAutoDisconnect\<close> reads the two fields of
  \<open>activityTracker.current\<close> when it runs, and \<open>state.syncingFiles\<close> as its closure has it.
\<close>

fun runCallback :: "callback \<Rightarrow> session \<Rightarrow> session" where
  "runCallback (IdleDisconnect dev syn) s =
     (if isDownloading s \<or> activeOperations s \<noteq> [] \<or> syn
      then scheduleAutoDisconnect_of dev syn s
      else autoDisconnectWithDevice dev s)"
| "runCallback (IdleDisconnectFast dev) s = autoDisconnectWithDevice (Some dev) s"
| "runCallback PeriodicTick s = periodicTick s"
| "runCallback RestartPeriodic s = delayedStart AfterDisconnect s"

text \<open>
  The runtime fires timer \<open>h\<close>, if it is live: a timeout leaves the table before its
  callback runs, an interval stays.
\<close>

definition fireTimer :: "nat \<Rightarrow> session \<Rightarrow> session" where
  "fireTimer h s =
     (case map_of (timerTable s) h of
        None \<Rightarrow> s
      | Some PeriodicTick \<Rightarrow> runCallback PeriodicTick s
      | Some cb \<Rightarrow> runCallback cb (clearTimer h s))"

text \<open>
  What can happen to the timers, in any order: the delayed callback of a call site of
  \<open>startPeriodicReconnect\<close> runs, \<open>clearAllTimers\<close>, the clearing of the periodic timer in the
  \<open>catch\<close> branch of \<open>connect\<close>, logout cleanup beginning and ending, a download beginning
  and ending, a sync pass beginning and ending (\<open>SYNC_START\<close> and the actions that reset
  \<open>syncingFiles\<close>), the arming of the idle-disconnect timer either way, and the firing of a timer.
\<close>

datatype event =
    DelayedStart callSite
  | ClearAllTimers
  | ClearPeriodic
  | SetCleanup bool
  | SetDownloading bool
  | SetSyncing bool
  | ScheduleAutoDisconnect
  | ScheduleAutoDisconnectFast string
  | Fire nat

fun happen :: "event \<Rightarrow> session \<Rightarrow> session" where
  "happen (DelayedStart site) s = delayedStart site s"
| "happen ClearAllTimers s = clearAllTimers s"
| "happen ClearPeriodic s =
     (case periodicReconnect s of
        Some h \<Rightarrow> (clearTimer h s)\<lparr>periodicReconnect := None\<rparr> | None \<Rightarrow> s)"
| "happen (SetCleanup b) s = s\<lparr>immediateCleanup := b\<rparr>"
| "happen (SetDownloading b) s = s\<lparr>isDownloading := b\<rparr>"
| "happen (SetSyncing b) s = s\<lparr>syncing := b\<rparr>"
| "happen ScheduleAutoDisconnect s = scheduleAutoDisconnect s"
| "happen (ScheduleAutoDisconnectFast dev) s = scheduleAutoDisconnectFast dev s"
| "happen (Fire h) s = fireTimer h s"

definition run :: "event list \<Rightarrow> session \<Rightarrow> session" where
  "run evs s = foldl (\<lambda>s ev. happen ev s) s evs"

text \<open>
  The identifiers of the live periodic-reconnect intervals, and those of the live
  idle-disconnect timers.
\<close>

definition periodicTimers :: "session \<Rightarrow> nat list" where
  "periodicTimers s = map fst (filter (\<lambda>t. snd t = PeriodicTick) (timerTable s))"

definition idleTimers :: "session \<Rightarrow> nat list" where
  "idleTimers s = map fst (filter (\<lambda>t. snd t \<noteq> PeriodicTick \<and> snd t \<noteq> RestartPeriodic) (timerTable s))"

text \<open>
  A session right after a sync pass: connected, serial remembered, no timer armed yet.
\<close>

definition linked :: "string \<Rightarrow> string \<Rightarrow> session" where
  "linked serial dev =
     \<lparr>timerTable = [], nextTimerId = 1, autoDisconnect = None, periodicReconnect = None,
      isDownloading = False, activeOperations = [], syncing = False, immediateCleanup = False,
      lastConnectedSerial = Some serial, device = Some dev, connected = True, sent = []\<rparr>"

text \<open>
  The timer table and the two references agree: identifiers are distinct and below
  \<open>nextTimerId\<close>, the live periodic intervals are exactly the one \<open>periodicReconnect\<close> refers
  to, and \<open>autoDisconnect\<close> does not refer to a periodic interval.
\<close>

definition consistent :: "session \<Rightarrow> bool" where
  "consistent s \<longleftrightarrow>
     distinct (map fst (timerTable s)) \<and>
     (\<forall>t \<in> set (timerTable s). fst t < nextTimerId s) \<and>
     periodicTimers s = (case periodicReconnect s of None \<Rightarrow> [] | Some h \<Rightarrow> [h]) \<and>
     (\<forall>h. autoDisconnect s = Some h \<longrightarrow> h < nextTimerId s \<and> h \<notin> set (periodicTimers s))"

section \<open>Link establishment: \<open>authenticateWithRetry\<close> and \<open>connect\<close>\<close>

text \<open>
  \<open>String.prototype.includes\<close>: the needle occurs somewhere in the string.
\<close>

fun stringIncludes :: "string \<Rightarrow> string \<Rightarrow> bool" where
  "stringIncludes [] needle \<longleftrightarrow> needle = []"
| "stringIncludes (c # cs) needle \<longleftrightarrow> take (length needle) (c # cs) = needle \<or> stringIncludes cs needle"

text \<open>
  \<open>writePacket\<close>, as far as its outcome goes: the size check of the compact frame, then
  whatever the link does (\<open>linkError\<close> is the error of \<open>device.isConnected()\<close> being false
  or of the write call, \<open>None\<close> when the frame goes out).
\<close>

definition writePacket :: "string \<Rightarrow> string \<Rightarrow> error option \<Rightarrow> error option" where
  "writePacket opc payloadText linkError =
     (let size = 1 + length opc + length payloadText in
      if size < 1 \<or> size > 26 then Some (PacketTooLarge size) else linkError)"

text \<open>
  What one turn of the loop of \<open>authenticateWithRetry\<close> meets: the logout flag at the head
  of the loop, the answer of \<open>device.isConnected()\<close>, the fault of the link on writing, the
  payload \<open>readPacket('a', AUTH_TIMEOUT)\<close> returns as text (\<open>None\<close> when it times out), and
  whether the logout flag is seen set during the settle delay after a failed attempt.
  \<open>authRun\<close> is what the function leaves: the error it throws if any, its locals
  \<open>authSuccessful\<close> and \<open>authAttempts\<close>, and the errors its \<open>catch\<close> block swallowed.
\<close>

record authTry =
  abortAtStart :: bool
  stillConnected :: bool
  writeFault :: "error option"
  authResponse :: "string option"
  abortInSettle :: bool

record authRun =
  thrown :: "error option"
  authSuccessful :: bool
  authAttempts :: nat
  caught :: "error list"

text \<open>
  The \<open>try\<close> block of one attempt: \<open>Inl\<close> is the error that goes to the \<open>catch\<close> block.
\<close>

definition authAttempt :: "string \<Rightarrow> authTry \<Rightarrow> error + unit" where
  "authAttempt serial t =
     (if \<not> stillConnected t then Inl DisconnectedBeforeAuthentication
      else case writePacket ''A'' serial (writeFault t) of
             Some e \<Rightarrow> Inl e
           | None \<Rightarrow>
               (case authResponse t of
                  None \<Rightarrow> Inl (TimeoutWaitingForOpcode 0x61)
                | Some authResponseStr \<Rightarrow>
                    if stringIncludes authResponseStr (CHR 0x22 # ''Authenticated'' @ CHR 0x22 # '':true'')
                    then Inr ()
                    else Inl (AuthenticationFailed authResponseStr)))"

text \<open>
  The loop \<open>while (authAttempts < maxAuthAttempts && !authSuccessful)\<close>. Nothing follows
  it in the source: when it ends, the function returns.
\<close>

function authLoop :: "string \<Rightarrow> (nat \<Rightarrow> authTry) \<Rightarrow> authRun \<Rightarrow> authRun" where
  "authLoop serial tries r =
     (if authAttempts r < 3 \<and> \<not> authSuccessful r then
        (let t = tries (authAttempts r) in
         if abortAtStart t then r\<lparr>thrown := Some AuthenticationAborted\<rparr>
         else
           (let r1 = r\<lparr>authAttempts := authAttempts r + 1\<rparr> in
            case authAttempt serial t of
              Inr u \<Rightarrow> authLoop serial tries (r1\<lparr>authSuccessful := True\<rparr>)
            | Inl authError \<Rightarrow>
                (let r2 = r1\<lparr>caught := caught r1 @ [authError]\<rparr> in
                 if abortInSettle t then r2\<lparr>thrown := Some AuthenticationAborted\<rparr>
                 else authLoop serial tries r2)))
      else r)"
  by pat_completeness auto
termination
  by (relation "measure (\<lambda>(serial, tries, r). (3 - authAttempts r) + (if authSuccessful r then 0 else 1))")
     auto

declare authLoop.simps [simp del]

definition authenticateWithRetry :: "string \<Rightarrow> (nat \<Rightarrow> authTry) \<Rightarrow> authRun" where
  "authenticateWithRetry serial tries =
     authLoop serial tries \<lparr>thrown = None, authSuccessful = False, authAttempts = 0, caught = []\<rparr>"

text \<open>
  The actions \<open>connect\<close> dispatches and the reducer, on the fields of \<open>BLEState\<close> that these
  actions set (status text, error text and navigation flags are left out).
  \<open>CONNECT_FAIL\<close> resets neither \<open>connected\<close> nor \<open>device\<close>.
\<close>

datatype BLEAction =
    SEARCH_START | SEARCH_SUCCESS | CONNECT_START | CONNECT_SUCCESS string
  | AUTH_START | AUTH_SUCCESS | CONNECT_FAIL error
  | SET_LAST_SERIAL string | SET_PERIODIC_RECONNECT bool

record BLEState =
  bleDevice :: "string option"
  bleConnected :: bool
  connecting :: bool
  searching :: bool
  authenticating :: bool
  bleSyncingFiles :: bool
  lastSerial :: "string option"
  isPeriodicReconnect :: bool

fun reducer :: "BLEState \<Rightarrow> BLEAction \<Rightarrow> BLEState" where
  "reducer st SEARCH_START =
     st\<lparr>searching := True, connecting := True, authenticating := False, bleSyncingFiles := False\<rparr>"
| "reducer st SEARCH_SUCCESS = st\<lparr>searching := False\<rparr>"
| "reducer st CONNECT_START = st\<lparr>connecting := True\<rparr>"
| "reducer st AUTH_START = st\<lparr>connecting := True, authenticating := True\<rparr>"
| "reducer st AUTH_SUCCESS = st\<lparr>authenticating := False\<rparr>"
| "reducer st (CONNECT_SUCCESS dev) =
     st\<lparr>bleDevice := Some dev, bleConnected := True, connecting := False, authenticating := False,
        isPeriodicReconnect := False\<rparr>"
| "reducer st (CONNECT_FAIL e) =
     st\<lparr>connecting := False, searching := False, authenticating := False, bleSyncingFiles := False,
        isPeriodicReconnect := False\<rparr>"
| "reducer st (SET_LAST_SERIAL serial) = st\<lparr>lastSerial := Some serial\<rparr>"
| "reducer st (SET_PERIODIC_RECONNECT b) = st\<lparr>isPeriodicReconnect := b\<rparr>"

text \<open>
  What one call of \<open>connect\<close> meets: the logout flag (taken as constant over the call; the
  flags inside authentication are those of \<open>authTry\<close>), the two boolean arguments, the two
  in-progress flags, the device found by \<open>scanForDeviceWithRetry\<close> or its error, the error
  of the phases between scan and authentication if one of them throws, the authentication
  script, and the error of \<open>SecureStore.setItemAsync\<close> if it throws. \<open>connectPhases\<close> is
  the \<open>try\<close> block up to phase 7 and returns the error thrown with the actions dispatched
  so far; phase 8, the file sync, catches its own errors. \<open>connect\<close> adds the guards in
  front and the \<open>catch\<close> block's \<open>CONNECT_FAIL\<close>, and returns the error it rethrows.
\<close>

record attempt =
  cleanup :: bool
  isReconnection :: bool
  periodic :: bool
  connectionInProgress :: bool
  reconnectionInProgress :: bool
  scanResult :: "error + string"
  linkFault :: "error option"
  authTries :: "nat \<Rightarrow> authTry"
  persistFault :: "error option"

definition connectPhases :: "string \<Rightarrow> attempt \<Rightarrow> BLEState \<Rightarrow> error option \<times> BLEAction list" where
  "connectPhases serial env st =
     (if cleanup env then (Some ConnectionAborted, [])
      else
        (let a1 = (if periodic env then [SET_PERIODIC_RECONNECT True] else []) in
         if (connecting st \<or> bleConnected st \<or> reconnectionInProgress env)
            \<and> \<not> isReconnection env \<and> \<not> periodic env
         then (Some AlreadyConnecting, a1)
         else
           (let a2 = a1 @ (if \<not> isReconnection env \<and> \<not> periodic env
                           then [SET_LAST_SERIAL serial] else []);
                a3 = a2 @ [SEARCH_START]
            in case scanResult env of
                 Inl e \<Rightarrow> (Some e, a3)
               | Inr dev \<Rightarrow>
                   (let a4 = a3 @ [SEARCH_SUCCESS, CONNECT_START] in
                    case linkFault env of
                      Some e \<Rightarrow> (Some e, a4)
                    | None \<Rightarrow>
                        (let a5 = a4 @ [AUTH_START];
                             r = authenticateWithRetry serial (authTries env);
                             a6 = a5 @ (if authSuccessful r then [AUTH_SUCCESS] else [])
                         in case thrown r of
                              Some e \<Rightarrow> (Some e, a6)
                            | None \<Rightarrow>
                                (let a7 = a6 @ [CONNECT_SUCCESS dev] in
                                 case persistFault env of
                                   Some e \<Rightarrow> (Some e, a7)
                                 | None \<Rightarrow> (None, a7)))))))"

definition connect :: "string \<Rightarrow> attempt \<Rightarrow> BLEState \<Rightarrow> error option \<times> BLEState" where
  "connect serial env st =
     (if cleanup env then (Some ConnectionAborted, st)
      else if connectionInProgress env \<and> \<not> isReconnection env \<and> \<not> periodic env
      then (Some ConnectionInProgress, st)
      else
        (case connectPhases serial env st of
           (None, actions) \<Rightarrow> (None, foldl reducer st actions)
         | (Some err, actions) \<Rightarrow> (Some err, foldl reducer st (actions @ [CONNECT_FAIL err]))))"

text \<open>
  Sample inputs: the response text \<open>{"Authenticated":false}\<close>, an attempt in which the
  device answers with the given text, the initial state of the provider, and a fresh
  connect in which every phase before authentication succeeds.
\<close>

definition authFalse :: string where
  "authFalse = CHR 0x7B # CHR 0x22 # ''Authenticated'' @ CHR 0x22 # '':false}''"

definition rejecting :: "string \<Rightarrow> authTry" where
  "rejecting response =
     \<lparr>abortAtStart = False, stillConnected = True, writeFault = None,
      authResponse = Some response, abortInSettle = False\<rparr>"

definition idle :: BLEState where
  "idle = \<lparr>bleDevice = None, bleConnected = False, connecting = False, searching = False,
           authenticating = False, bleSyncingFiles = False, lastSerial = None,
           isPeriodicReconnect = False\<rparr>"

definition freshConnect :: "(nat \<Rightarrow> authTry) \<Rightarrow> attempt" where
  "freshConnect tries =
     \<lparr>cleanup = False, isReconnection = False, periodic = False, connectionInProgress = False,
      reconnectionInProgress = False, scanResult = Inr ''DU-0042'', linkFault = None,
      authTries = tries, persistFault = None\<rparr>"


section \<open>Properties of the frame codec\<close>

lemma parseTurn_compactFrame:
  assumes "compactFrame f"
  shows "parseTurn (f @ rest) = Parsed (packetOf f) rest"
proof -
  from assms obtain letter opc pl where f: "f = 0x2A # letter # opc # pl"
    and lo: "0x41 \<le> letter" and hi: "letter \<le> 0x5A"
    and len: "int (length pl) = (int (unat letter) - 0x41 + 1) - 2"
    by (cases f rule: compactFrame.cases) auto
  from len have sz: "unat letter - 0x41 + 1 = length pl + 2" by linarith
  show ?thesis
    using lo hi sz
    by (simp add: f parseTurn_def framed_def emitPacket_def slice_def packetOf_def Let_def)
qed

lemma parseLoop_frames:
  assumes "list_all compactFrame frames"
  shows "parseLoop n (concat frames) queue =
         (concat (drop (10 - n) frames), queue @ map packetOf (take (10 - n) frames))"
  using assms
proof (induction frames arbitrary: n queue)
  case Nil
  show ?case by (simp add: parseTurn_def)
next
  case (Cons f fs)
  show ?case
  proof (cases "n < 10")
    case False
    then show ?thesis by simp
  next
    case True
    from Cons.prems have cf: "compactFrame f" and fs: "list_all compactFrame fs" by auto
    from True have eq: "10 - n = Suc (10 - (n + 1))" by simp
    from True have "parseLoop n (concat (f # fs)) queue =
          parseLoop (n + 1) (concat fs) (queue @ [packetOf f])"
      by (subst parseLoop.simps) (simp add: parseTurn_compactFrame [OF cf])
    also have "\<dots> = (concat (drop (10 - (n + 1)) fs),
                     (queue @ [packetOf f]) @ map packetOf (take (10 - (n + 1)) fs))"
      by (rule Cons.IH [OF fs])
    finally show ?thesis by (simp only: eq) simp
  qed
qed

text \<open>
  Claim C7. On a buffer made of well-formed compact frames laid back to back, one call of
  \<open>parsePackets\<close> appends to the queue exactly one packet for each of the first ten frames,
  in buffer order, each with the opcode byte and the payload bytes of its frame, and leaves
  the frames beyond the tenth in the buffer.
\<close>

theorem parsePackets_compact_frames:
  assumes "list_all compactFrame frames"
  shows "parsePackets (concat frames, queue) =
         (concat (drop 10 frames), queue @ map packetOf (take 10 frames))"
  using parseLoop_frames [OF assms, of 0 queue] by (simp add: parsePackets_def)

theorem parsePackets_compact_frames_witness:
  "compactFrame [0x2A, 0x42, 0x46] \<and> compactFrame [0x2A, 0x43, 0x44, 0x01] \<and>
   parsePackets ([0x2A, 0x42, 0x46, 0x2A, 0x43, 0x44, 0x01], []) =
     ([], [\<lparr>opcode = 0x46, payload = []\<rparr>, \<lparr>opcode = 0x44, payload = [0x01]\<rparr>])"
  using parsePackets_compact_frames [of "[ [0x2A, 0x42, 0x46], [0x2A, 0x43, 0x44, 0x01] ]" "[]"]
  by (simp add: packetOf_def)

text \<open>
  Claim C8, as the code has it. The parser is at a sync marker and the size byte is no
  compact size letter. The check of the extended size field is behind the guard
  \<open>if (length < 6) return\<close>, and the field is read through \<open>toString('ascii')\<close>,
  which clears the top bit of each byte. With at least six bytes buffered, a size field
  that, read so, is not four hexadecimal digits, or that decodes below 5 or above 65535,
  makes the turn drop exactly the first byte and emit nothing, and the loop goes on from
  the shortened buffer. With fewer than six bytes buffered the call returns with the
  buffer and the queue as they were, whatever the size field holds.
\<close>

theorem parsePackets_bad_extended_size:
  assumes "buf ! 0 = 0x2A"
    and "\<not> (0x41 \<le> buf ! 1 \<and> buf ! 1 \<le> 0x5A)"
  shows "(6 \<le> length buf \<and> packetsProcessed < 10 \<and>
          (\<not> list_all isHexDigit (sizeHex buf)
           \<or> parseIntHex (sizeHex buf) < 5 \<or> 65535 < parseIntHex (sizeHex buf))
          \<longrightarrow> parseTurn buf = Dropped (drop 1 buf) \<and>
              parseLoop packetsProcessed buf queue =
                parseLoop packetsProcessed (drop 1 buf) queue)
       \<and> (length buf < 6
          \<longrightarrow> parseTurn buf = Return buf \<and> parsePackets (buf, queue) = (buf, queue))"
proof -
  have long: "parseTurn buf = Dropped (drop 1 buf) \<and>
      parseLoop packetsProcessed buf queue = parseLoop packetsProcessed (drop 1 buf) queue"
    if a: "6 \<le> length buf \<and> packetsProcessed < 10 \<and>
          (\<not> list_all isHexDigit (sizeHex buf)
           \<or> parseIntHex (sizeHex buf) < 5 \<or> 65535 < parseIntHex (sizeHex buf))"
  proof -
    from a assms have t: "parseTurn buf = Dropped (drop 1 buf)"
      by (auto simp: parseTurn_def framed_def Let_def)
    from a have "packetsProcessed < 10" by simp
    with t show ?thesis by (subst parseLoop.simps) simp
  qed
  have short: "parseTurn buf = Return buf \<and> parsePackets (buf, queue) = (buf, queue)"
    if "length buf < 6"
  proof -
    from that assms have t: "parseTurn buf = Return buf"
      by (auto simp: parseTurn_def framed_def Let_def)
    then show ?thesis
      unfolding parsePackets_def by (subst parseLoop.simps) simp
  qed
  from long short show ?thesis by blast
qed

theorem parsePackets_bad_extended_size_witness:
  "parseTurn [0x2A, 0x7A, 0x7A, 0x7A, 0x7A, 0x7A] = Dropped [0x7A, 0x7A, 0x7A, 0x7A, 0x7A] \<and>
   parseLoop 0 [0x2A, 0x7A, 0x7A, 0x7A, 0x7A, 0x7A] [] = parseLoop 0 [0x7A, 0x7A, 0x7A, 0x7A, 0x7A] [] \<and>
   parseTurn [0x2A, 0x30, 0x30] = Return [0x2A, 0x30, 0x30] \<and>
   parsePackets ([0x2A, 0x30, 0x30], []) = ([0x2A, 0x30, 0x30], [])"
  using parsePackets_bad_extended_size [of "[0x2A, 0x7A, 0x7A, 0x7A, 0x7A, 0x7A]" 0 "[]"]
    parsePackets_bad_extended_size [of "[0x2A, 0x30, 0x30]" 0 "[]"]
  by (simp add: sizeHex_def slice_def asciiChar_def isHexDigit_def)

text \<open>
  Two buffers on which the parser does not drop a byte although the four bytes after the
  sync marker are no hexadecimal number. With only five bytes buffered the size field
  \<open>zzzz\<close> is complete, yet \<open>parsePackets\<close> returns and leaves the buffer as it is. And
  the field \<open>B0 30 30 35\<close> begins with a byte that is no hexadecimal digit, but with its
  top bit cleared the field reads \<open>0005\<close>: the parser takes the seven bytes for an
  extended frame and queues a packet with the opcode \<open>F\<close>.
\<close>

theorem parsePackets_short_extended_kept:
  "list_all isHexDigit (slice 1 5 [0x2A, 0x7A, 0x7A, 0x7A, 0x7A]) = False \<and>
   parsePackets ([0x2A, 0x7A, 0x7A, 0x7A, 0x7A], []) = ([0x2A, 0x7A, 0x7A, 0x7A, 0x7A], []) \<and>
   list_all isHexDigit (slice 1 5 [0x2A, 0xB0, 0x30, 0x30, 0x35, 0x46, 0x00]) = False \<and>
   parsePackets ([0x2A, 0xB0, 0x30, 0x30, 0x35, 0x46, 0x00], []) =
     ([], [\<lparr>opcode = 0x46, payload = []\<rparr>])"
  by (simp add: sizeHex_def slice_def asciiChar_def isHexDigit_def parsePackets_def
        parseTurn_def framed_def emitPacket_def parseIntHex_def hexValue_def
        parseLoop.simps [of 0] parseLoop.simps [of 1])

section \<open>Properties of the request/response matcher\<close>

lemma findIndex_None: "findIndex P xs = None \<longleftrightarrow> (\<forall>x \<in> set xs. \<not> P x)"
  by (induction xs) auto

lemma findIndex_first:
  "\<forall>x \<in> set older. \<not> P x \<Longrightarrow> P p \<Longrightarrow> findIndex P (older @ p # newer) = Some (length older)"
  by (induction older) auto

lemma dequeueIf_none:
  "\<forall>p \<in> set queue. opcode p \<noteq> op \<Longrightarrow> dequeueIf op queue = (None, queue)"
  by (simp add: dequeueIf_def findIndex_None [THEN iffD2])

lemma dequeueIf_first:
  "\<forall>p \<in> set older. opcode p \<noteq> op \<Longrightarrow> opcode p = op \<Longrightarrow>
   dequeueIf op (older @ p # newer) = (Some p, older @ newer)"
  by (simp add: dequeueIf_def findIndex_first)

lemma readPacket_poll_timeout:
  assumes "\<forall>p \<in> set queue. opcode p \<noteq> op"
    and "\<forall>k. \<forall>p \<in> set (arrivals k). opcode p \<noteq> op"
    and "now = start + pollTime late k"
    and "\<forall>m < k. pollTime late m \<le> t"
  shows "\<exists>q' n. readPacket_poll arrivals late op t start k now queue =
                  (Inl (TimeoutWaitingForOpcode op), q', start + pollTime late n) \<and>
                t < pollTime late n \<and> (\<forall>m < n. pollTime late m \<le> t)"
  using assms
proof (induction arrivals late op t start k now queue rule: readPacket_poll.induct)
  case (1 arrivals late op t start k now queue)
  from "1.prems"(1) have dq: "dequeueIf op queue = (None, queue)" by (rule dequeueIf_none)
  show ?case
  proof (cases "now - start > t")
    case True
    with dq "1.prems"(3,4) show ?thesis
      by (subst readPacket_poll.simps) (auto intro!: exI [of _ k])
  next
    case False
    from "1.prems"(1,2) have q: "\<forall>p \<in> set (queue @ arrivals k). opcode p \<noteq> op" by auto
    from "1.prems"(3) have now': "now + delay 10 (late k) = start + pollTime late (k + 1)"
      by simp
    from False "1.prems"(3) have "pollTime late k \<le> t" by simp
    with "1.prems"(4) have below: "\<forall>m < k + 1. pollTime late m \<le> t"
      by (auto simp: less_Suc_eq)
    have step: "readPacket_poll arrivals late op t start k now queue =
          readPacket_poll arrivals late op t start (k + 1) (now + delay 10 (late k))
            (queue @ arrivals k)"
      using dq False by (subst readPacket_poll.simps) simp
    from "1.IH" [OF dq [symmetric] refl _ _ q "1.prems"(2) now' below] False
    show ?thesis unfolding step by simp
  qed
qed

text \<open>
  Claim C9, as the code has it. When no packet with the awaited opcode is queued and none
  arrives, \<open>readPacket\<close> with any timeout \<open>t\<close> throws the timeout error, and it does so at
  the first test of the queue at which more than \<open>t\<close> has elapsed: no earlier than \<open>t\<close>
  elapsed, and, when \<open>t\<close> is not negative, no later than \<open>t\<close> plus the time the sleep
  before that test took. That sleep takes the poll interval of 10 ms or longer, so the
  bound \<open>t + 10\<close> holds when no sleep is late. A negative \<open>t\<close> fails at once, at elapsed 0.
  When a packet with that opcode is queued, the oldest one is taken out of the queue and
  its payload returned at once, the clock unmoved and the other packets left in order.
\<close>

theorem readPacket_timeout_or_oldest:
  "((\<forall>p \<in> set queue. opcode p \<noteq> op) \<and> (\<forall>k. \<forall>p \<in> set (arrivals k). opcode p \<noteq> op)
      \<longrightarrow> (\<exists>q' n. readPacket arrivals late op t now queue =
                    (Inl (TimeoutWaitingForOpcode op), q', now + pollTime late n)
                  \<and> t < pollTime late n \<and> (\<forall>m < n. pollTime late m \<le> t)
                  \<and> (0 \<le> t \<longrightarrow> 0 < n \<and> pollTime late n \<le> t + delay 10 (late (n - 1)))
                  \<and> (0 \<le> t \<and> (\<forall>k. late k = 0) \<longrightarrow> pollTime late n \<le> t + 10)
                  \<and> (t < 0 \<longrightarrow> n = 0)))
   \<and> ((\<forall>p \<in> set older. opcode p \<noteq> op) \<and> opcode pkt = op
      \<longrightarrow> readPacket arrivals late op t now (older @ pkt # newer) =
            (Inr (payload pkt), older @ newer, now))"
proof -
  have timeout: "\<exists>q' n. readPacket arrivals late op t now queue =
                    (Inl (TimeoutWaitingForOpcode op), q', now + pollTime late n)
                  \<and> t < pollTime late n \<and> (\<forall>m < n. pollTime late m \<le> t)
                  \<and> (0 \<le> t \<longrightarrow> 0 < n \<and> pollTime late n \<le> t + delay 10 (late (n - 1)))
                  \<and> (0 \<le> t \<and> (\<forall>k. late k = 0) \<longrightarrow> pollTime late n \<le> t + 10)
                  \<and> (t < 0 \<longrightarrow> n = 0)"
    if a: "(\<forall>p \<in> set queue. opcode p \<noteq> op) \<and> (\<forall>k. \<forall>p \<in> set (arrivals k). opcode p \<noteq> op)"
  proof -
    from a obtain q' n where
      r: "readPacket_poll arrivals late op t now 0 now queue =
         (Inl (TimeoutWaitingForOpcode op), q', now + pollTime late n)"
      and above: "t < pollTime late n" and below: "\<forall>m < n. pollTime late m \<le> t"
      using readPacket_poll_timeout [of queue op arrivals now now late 0 t] by auto
    have pos: "0 < n" if "0 \<le> t"
    proof (rule ccontr)
      assume "\<not> 0 < n"
      with above that show False by simp
    qed
    have last: "pollTime late n \<le> t + delay 10 (late (n - 1))" if "0 \<le> t"
    proof -
      from pos [OF that] obtain m where n: "n = Suc m" by (cases n) auto
      with below have "pollTime late m \<le> t" by simp
      with n show ?thesis by simp
    qed
    have punctual: "pollTime late n \<le> t + 10" if "0 \<le> t" "\<forall>k. late k = 0"
      using last [OF that(1)] that(2) by (simp add: delay_def)
    have neg: "n = 0" if "t < 0"
    proof (rule ccontr)
      assume "n \<noteq> 0"
      then have "0 < n" by simp
      with below have "pollTime late 0 \<le> t" by blast
      with that show False by simp
    qed
    from r above below pos last punctual neg show ?thesis
      unfolding readPacket_def by blast
  qed
  have oldest: "readPacket arrivals late op t now (older @ pkt # newer) =
             (Inr (payload pkt), older @ newer, now)"
    if "(\<forall>p \<in> set older. opcode p \<noteq> op) \<and> opcode pkt = op"
  proof -
    from that have "dequeueIf op (older @ pkt # newer) = (Some pkt, older @ newer)"
      by (simp add: dequeueIf_first)
    then show ?thesis
      unfolding readPacket_def by (subst readPacket_poll.simps) simp
  qed
  from timeout oldest show ?thesis by blast
qed

theorem readPacket_timeout_or_oldest_witness:
  "(\<exists>q' n. readPacket (\<lambda>k. []) (\<lambda>k. 15) 0x46 30 1000 [\<lparr>opcode = 0x45, payload = []\<rparr>] =
             (Inl (TimeoutWaitingForOpcode 0x46), q', 1000 + pollTime (\<lambda>k. 15) n)
           \<and> 30 < pollTime (\<lambda>k. 15) n \<and> pollTime (\<lambda>k. 15) n \<le> 30 + delay 10 15)
   \<and> readPacket (\<lambda>k. []) (\<lambda>k. 15) 0x46 30 1000
        [\<lparr>opcode = 0x45, payload = []\<rparr>, \<lparr>opcode = 0x46, payload = [1]\<rparr>,
         \<lparr>opcode = 0x46, payload = [2]\<rparr>] =
      (Inr [1], [\<lparr>opcode = 0x45, payload = []\<rparr>, \<lparr>opcode = 0x46, payload = [2]\<rparr>], 1000)"
  using readPacket_timeout_or_oldest
    [where t = 30 and queue = "[\<lparr>opcode = 0x45, payload = []\<rparr>]" and op = "0x46"
       and arrivals = "\<lambda>k. []" and late = "\<lambda>k. 15" and now = 1000
       and older = "[\<lparr>opcode = 0x45, payload = []\<rparr>]"
       and pkt = "\<lparr>opcode = 0x46, payload = [1]\<rparr>"
       and newer = "[\<lparr>opcode = 0x46, payload = [2]\<rparr>]"]
  by auto

text \<open>
  Two calls that fail later than \<open>t\<close> plus one poll interval. With every sleep 15 ms late
  and \<open>t = 30\<close>, the queue is tested at 0, 25 and 50 ms and the call fails at 50 ms, which
  is after \<open>t + 10 = 40\<close>. With \<open>t = -100\<close> the call fails at its first test, at elapsed
  0, which is after \<open>t + 10 = -90\<close>.
\<close>

theorem readPacket_timeout_late:
  "readPacket (\<lambda>k. []) (\<lambda>k. 15) 0x46 30 1000 [] =
     (Inl (TimeoutWaitingForOpcode 0x46), [], 1000 + 50) \<and>
   readPacket (\<lambda>k. []) (\<lambda>k. 0) 0x46 (- 100) 1000 [] =
     (Inl (TimeoutWaitingForOpcode 0x46), [], 1000 + 0)"
  by (simp add: readPacket_def readPacket_poll.simps dequeueIf_def delay_def)

section \<open>Properties of the storage collaborator\<close>

lemma foldl_deleteFile:
  "foldl (\<lambda>d file. deleteFile (fileName file) d) dir gone =
   filter (\<lambda>f. name f \<notin> fileName ` set gone) dir"
  by (induction gone arbitrary: dir) (auto simp: deleteFile_def intro: filter_cong)

lemma fileName_localFileInfo [simp]: "fileName (localFileInfo f) = name f"
  by (simp add: localFileInfo_def)

lemma getStoredFiles_filter:
  "getStoredFiles (filter (\<lambda>f. P (name f)) dir) = filter (\<lambda>i. P (fileName i)) (getStoredFiles dir)"
proof -
  have "map localFileInfo (filter (\<lambda>f. endsWith (name f) ''.csv'') (filter (\<lambda>f. P (name f)) dir))
      = filter (\<lambda>i. P (fileName i)) (map localFileInfo (filter (\<lambda>f. endsWith (name f) ''.csv'') dir))"
    by (induction dir) auto
  then show ?thesis by (simp add: getStoredFiles_def filter_sort)
qed

lemma distinct_getStoredFiles:
  assumes "distinct (map name dir)"
  shows "distinct (map fileName (getStoredFiles dir))"
proof -
  let ?csv = "filter (\<lambda>f. endsWith (name f) ''.csv'') dir"
  have "mset (map fileName (getStoredFiles dir)) = mset (map name ?csv)"
    by (simp add: getStoredFiles_def multiset.map_comp comp_def)
  moreover from assms have "distinct (map name ?csv)"
    by (simp add: distinct_map_filter)
  ultimately show ?thesis
    using mset_eq_imp_distinct_iff by blast
qed

lemma filter_not_dropped:
  "distinct (map f xs) \<Longrightarrow> filter (\<lambda>x. f x \<notin> f ` set (drop n xs)) xs = take n xs"
proof (induction xs arbitrary: n)
  case Nil
  show ?case by simp
next
  case (Cons x xs)
  show ?case
  proof (cases n)
    case 0
    then show ?thesis by (auto simp: filter_empty_conv)
  next
    case (Suc m)
    from Cons.prems have "f x \<notin> f ` set (drop m xs)" by (auto dest: in_set_dropD)
    with Cons Suc show ?thesis by simp
  qed
qed

lemma sorted_getStoredFiles:
  "sorted_wrt (\<lambda>a b. timestamp a \<ge> timestamp b) (getStoredFiles dir)"
proof -
  have "sorted (map (\<lambda>i. - timestamp i) (getStoredFiles dir))"
    by (simp add: getStoredFiles_def)
  then show ?thesis by (simp add: sorted_wrt_map)
qed

lemma deleteEach_none_failing:
  "\<forall>g \<in> set gone. fileName g \<notin> set failing \<Longrightarrow>
   deleteEach failing gone dir = foldl (\<lambda>d file. deleteFile (fileName file) d) dir gone"
  by (induction gone arbitrary: dir) simp_all

lemma deleteEach_other:
  "\<forall>g \<in> set gone. endsWith (fileName g) ''.csv'' \<Longrightarrow>
   filter (\<lambda>f. \<not> endsWith (name f) ''.csv'') (deleteEach failing gone dir) =
   filter (\<lambda>f. \<not> endsWith (name f) ''.csv'') dir"
proof (induction gone arbitrary: dir)
  case Nil
  show ?case by simp
next
  case (Cons g gone)
  have "filter (\<lambda>f. \<not> endsWith (name f) ''.csv'') (deleteFile (fileName g) dir) =
        filter (\<lambda>f. \<not> endsWith (name f) ''.csv'') dir"
    using Cons.prems by (auto simp: deleteFile_def intro!: filter_cong)
  with Cons show ?case by simp
qed

lemma getStoredFiles_keepOnlyLatestFiles:
  assumes "distinct (map name dir)" and "\<not> listFails fs"
    and "\<forall>gone \<in> set (drop n (getStoredFiles dir)). fileName gone \<notin> set (deleteFails fs)"
  shows "getStoredFiles (keepOnlyLatestFiles fs n dir) = take n (getStoredFiles dir)"
proof (cases "length (getStoredFiles dir) \<le> n")
  case True
  with assms(2) show ?thesis by (simp add: keepOnlyLatestFiles_def)
next
  case False
  let ?S = "getStoredFiles dir"
  from False assms(2,3)
  have "keepOnlyLatestFiles fs n dir = filter (\<lambda>f. name f \<notin> fileName ` set (drop n ?S)) dir"
    by (simp add: keepOnlyLatestFiles_def deleteEach_none_failing foldl_deleteFile)
  then have "getStoredFiles (keepOnlyLatestFiles fs n dir) =
             filter (\<lambda>i. fileName i \<notin> fileName ` set (drop n ?S)) ?S"
    by (simp add: getStoredFiles_filter [where P = "\<lambda>x. x \<notin> fileName ` set (drop n ?S)"])
  also have "\<dots> = take n ?S"
    by (rule filter_not_dropped) (rule distinct_getStoredFiles [OF assms(1)])
  finally show ?thesis .
qed

lemma distinct_writeAsString:
  assumes "distinct (map name dir)"
  shows "distinct (map name (writeAsString fname text now dir))"
proof (cases "fname \<in> set (map name dir)")
  case True
  have "map name (map (\<lambda>f. if name f = fname then f\<lparr>content := text, modificationTime := now\<rparr> else f) dir)
        = map name dir"
    by (induction dir) auto
  with True assms show ?thesis
    by (simp only: writeAsString_def if_True)
next
  case False
  with assms show ?thesis
    by (simp add: writeAsString_def)
qed


lemma csv_count:
  "length (filter (\<lambda>f. endsWith (name f) ''.csv'') dir) = length (getStoredFiles dir)"
  by (simp add: getStoredFiles_def)

lemma keepOnlyLatestFiles_other:
  "filter (\<lambda>f. \<not> endsWith (name f) ''.csv'') (keepOnlyLatestFiles fs n dir) =
   filter (\<lambda>f. \<not> endsWith (name f) ''.csv'') dir"
proof -
  have "\<forall>g \<in> set (drop n (getStoredFiles dir)). endsWith (fileName g) ''.csv''"
    by (auto simp: getStoredFiles_def dest!: in_set_dropD)
  then show ?thesis
    by (simp add: keepOnlyLatestFiles_def Let_def deleteEach_other)
qed





text \<open>
  Claim C10, as the code has it. A call of \<open>storeFile\<close> that returns has written the file
  and ended in \<open>keepOnlyLatestFiles(10)\<close>. When the file system calls of that pruning
  succeed (the listing, and the deletion of each file beyond the tenth), at most ten CSV
  files are in the directory afterwards; they are the ten newest of those present after
  the write, by the time stamp read from the file name (for a name without one, the
  modification time); every other CSV file has been deleted, and each deleted file is at
  least as old as each one kept. Files that are not CSV files stay. So storing a file can
  delete files stored before, as the first example after the theorem shows.
\<close>

theorem storeFile_keeps_latest_ten:
  assumes "distinct (map name dir)"
    and "storeFile fs fname text now dir = Inr dir'"
    and "\<not> listFails fs"
    and "\<forall>gone \<in> set (drop 10 (getStoredFiles (writeAsString fname text now dir))).
           fileName gone \<notin> set (deleteFails fs)"
  shows "length (filter (\<lambda>f. endsWith (name f) ''.csv'') dir') \<le> 10
    \<and> getStoredFiles dir' = take 10 (getStoredFiles (writeAsString fname text now dir))
    \<and> (\<forall>gone \<in> set (drop 10 (getStoredFiles (writeAsString fname text now dir))).
          fileName gone \<notin> name ` set dir'
          \<and> (\<forall>kept \<in> set (getStoredFiles dir'). timestamp gone \<le> timestamp kept))
    \<and> filter (\<lambda>f. \<not> endsWith (name f) ''.csv'') dir' =
        filter (\<lambda>f. \<not> endsWith (name f) ''.csv'') (writeAsString fname text now dir)"
proof -
  let ?W = "writeAsString fname text now dir"
  let ?S = "getStoredFiles ?W"
  from assms(2) have D: "dir' = keepOnlyLatestFiles fs 10 ?W"
    by (auto simp: storeFile_def split: if_splits)
  have dW: "distinct (map name ?W)" by (rule distinct_writeAsString [OF assms(1)])
  have eq: "getStoredFiles dir' = take 10 ?S"
    unfolding D by (rule getStoredFiles_keepOnlyLatestFiles [OF dW assms(3,4)])
  have cnt: "length (filter (\<lambda>f. endsWith (name f) ''.csv'') dir') \<le> 10"
    by (simp add: csv_count eq)
  have other: "filter (\<lambda>f. \<not> endsWith (name f) ''.csv'') dir' =
               filter (\<lambda>f. \<not> endsWith (name f) ''.csv'') ?W"
    unfolding D by (rule keepOnlyLatestFiles_other)
  have "sorted_wrt (\<lambda>a b. timestamp a \<ge> timestamp b) (take 10 ?S @ drop 10 ?S)"
    using sorted_getStoredFiles [of ?W] by simp
  then have older: "\<forall>kept \<in> set (take 10 ?S). \<forall>gone \<in> set (drop 10 ?S).
                      timestamp gone \<le> timestamp kept"
    unfolding sorted_wrt_append by blast
  have gone: "fileName g \<notin> name ` set dir'" if g: "g \<in> set (drop 10 ?S)" for g
  proof
    assume "fileName g \<in> name ` set dir'"
    then obtain f where f: "f \<in> set dir'" "name f = fileName g" by auto
    from g have "g \<in> set ?S" by (rule in_set_dropD)
    then have "endsWith (fileName g) ''.csv''" by (auto simp: getStoredFiles_def)
    with f have "localFileInfo f \<in> set (getStoredFiles dir')"
      by (auto simp: getStoredFiles_def)
    with eq have "localFileInfo f \<in> set (take 10 ?S)" by simp
    then have "fileName (localFileInfo f) \<in> fileName ` set (take 10 ?S)" by (rule imageI)
    with f(2) have "fileName g \<in> fileName ` set (take 10 ?S)" by simp
    moreover from g have "fileName g \<in> fileName ` set (drop 10 ?S)" by blast
    moreover have "distinct (map fileName (take 10 ?S @ drop 10 ?S))"
      using distinct_getStoredFiles [OF dW] by simp
    ultimately show False
      unfolding map_append distinct_append by auto
  qed
  from cnt eq older gone other show ?thesis by (simp add: eq)
qed

theorem storeFile_keeps_latest_ten_witness:
  "distinct (map name (stored tenNames))
   \<and> storeFile noFaults ''M_240111000000.csv'' ''t,p'' 5 (stored tenNames) =
       Inr (stored (tl tenNames) @
            [\<lparr>name = ''M_240111000000.csv'', content = ''t,p'', modificationTime = 5\<rparr>])
   \<and> length (filter (\<lambda>f. endsWith (name f) ''.csv'')
        (stored (tl tenNames) @
         [\<lparr>name = ''M_240111000000.csv'', content = ''t,p'', modificationTime = 5\<rparr>])) \<le> 10
   \<and> hd tenNames \<notin> name ` set (stored (tl tenNames) @
         [\<lparr>name = ''M_240111000000.csv'', content = ''t,p'', modificationTime = 5\<rparr>])"
proof -
  let ?D = "stored (tl tenNames) @
            [\<lparr>name = ''M_240111000000.csv'', content = ''t,p'', modificationTime = 5\<rparr>]"
  have d: "distinct (map name (stored tenNames))" by code_simp
  have e: "storeFile noFaults ''M_240111000000.csv'' ''t,p'' 5 (stored tenNames) = Inr ?D"
    by code_simp
  have l: "\<not> listFails noFaults" by (simp add: noFaults_def)
  have g: "\<forall>gone \<in> set (drop 10 (getStoredFiles
               (writeAsString ''M_240111000000.csv'' ''t,p'' 5 (stored tenNames)))).
             fileName gone \<notin> set (deleteFails noFaults)"
    by (simp add: noFaults_def)
  have h: "hd tenNames \<notin> name ` set ?D" by code_simp
  from storeFile_keeps_latest_ten [OF d e l g]
  have "length (filter (\<lambda>f. endsWith (name f) ''.csv'') ?D) \<le> 10" by (rule conjunct1)
  with d e h show ?thesis by (intro conjI)
qed

text \<open>
  A call of \<open>storeFile\<close> that returns and leaves eleven CSV files: ten files are stored,
  an eleventh is written, and \<open>deleteAsync\<close> throws for the oldest one. \<open>deleteFile\<close>
  throws the error on, \<open>keepOnlyLatestFiles\<close> catches it and returns 0, and \<open>storeFile\<close>
  returns without an error.
\<close>

theorem storeFile_leaves_eleven:
  "storeFile \<lparr>writeFails = False, listFails = False, deleteFails = [hd tenNames]\<rparr>
     ''M_240111000000.csv'' ''t,p'' 5 (stored tenNames) =
     Inr (stored tenNames @
          [\<lparr>name = ''M_240111000000.csv'', content = ''t,p'', modificationTime = 5\<rparr>]) \<and>
   length (filter (\<lambda>f. endsWith (name f) ''.csv'')
     (stored tenNames @
      [\<lparr>name = ''M_240111000000.csv'', content = ''t,p'', modificationTime = 5\<rparr>])) = 11"
  by code_simp

section \<open>Properties of the file catalog reconciler\<close>

lemma writeNext_final: "final (writeNext s st) = st\<lparr>trace := trace st @ [Write 0x4E]\<rparr>"
  by (simp add: writeNext_def Let_def split: option.splits)

lemma downloadFiles_entry_trace:
  assumes "a \<in> set (trace (final (downloadFiles_entry l s st)))"
  shows "a \<in> set (trace st) \<or> a = Write 0x4E \<or>
         (\<exists>fname sz. reply s = FileEntry fname sz \<and> (a = Fetch fname \<or> a = Store fname) \<and>
            fname \<notin> l \<and> \<not> tooOld 72 (clock s) fname)"
  using assms
  by (auto simp: downloadFiles_entry_def writeNext_final tooOld_def Let_def
      split: reply.splits option.splits sum.splits if_splits)

lemma downloadNewFilesOnly_entry_trace:
  assumes "a \<in> set (trace (final (downloadNewFilesOnly_entry l s st)))"
  shows "a \<in> set (trace st) \<or> a = Write 0x4E \<or>
         (\<exists>fname sz. reply s = FileEntry fname sz \<and> (a = Fetch fname \<or> a = Store fname) \<and>
            fname \<notin> l \<and> \<not> tooOld 48 (clock s) fname)"
  using assms
  by (auto simp: downloadNewFilesOnly_entry_def writeNext_final tooOld_def Let_def
      split: reply.splits option.splits sum.splits if_splits)

lemma fetched_later:
  assumes "fetched m h l script (Suc i) a"
  shows "fetched m h l script i a"
proof -
  from assms obtain j fname sz where j: "Suc i \<le> j" "j < m"
    and r: "reply (script j) = FileEntry fname sz" "a = Fetch fname \<or> a = Store fname"
      "fname \<notin> l" "\<not> tooOld h (clock (script j)) fname"
    unfolding fetched_def by blast
  from j have "i \<le> j" by simp
  with j(2) r show ?thesis unfolding fetched_def by blast
qed

lemma fetched_here:
  "i < m \<Longrightarrow> reply (script i) = FileEntry fname sz \<Longrightarrow> a = Fetch fname \<or> a = Store fname \<Longrightarrow>
   fname \<notin> l \<Longrightarrow> \<not> tooOld h (clock (script i)) fname \<Longrightarrow> fetched m h l script i a"
  unfolding fetched_def by blast

lemma downloadFiles_loop_trace:
  assumes "a \<in> set (trace (snd (downloadFiles_loop l script i st)))"
  shows "a \<in> set (trace st) \<or> a = Write 0x4E \<or> fetched 25 72 l script i a"
  using assms
proof (induction l script i st rule: downloadFiles_loop.induct)
  case (1 l script i st)
  show ?case
  proof (cases "i < 25")
    case False
    with "1.prems" show ?thesis by (simp add: downloadFiles_loop.simps)
  next
    case True
    let ?o = "downloadFiles_entry l (script i) st"
    have entry: "b \<in> set (trace (final ?o)) \<Longrightarrow>
                 b \<in> set (trace st) \<or> b = Write 0x4E \<or> fetched 25 72 l script i b" for b
      using downloadFiles_entry_trace [of b l "script i" st] True
      by (auto intro: fetched_here)
    show ?thesis
    proof (cases ?o)
      case (Continue st')
      with True "1.prems" have "a \<in> set (trace (snd (downloadFiles_loop l script (i + 1) st')))"
        by (simp add: downloadFiles_loop.simps [of l script i])
      from "1.IH" [OF True Continue this]
      have "a \<in> set (trace st') \<or> a = Write 0x4E \<or> fetched 25 72 l script (i + 1) a" .
      with entry [of a] Continue show ?thesis by (auto dest: fetched_later)
    next
      case (Break st')
      with True "1.prems" have "a \<in> set (trace st')"
        by (simp add: downloadFiles_loop.simps [of l script i])
      with entry [of a] Break show ?thesis by simp
    next
      case (Throw e st')
      with True "1.prems" have "a \<in> set (trace st')"
        by (simp add: downloadFiles_loop.simps [of l script i])
      with entry [of a] Throw show ?thesis by simp
    qed
  qed
qed

lemma downloadNewFilesOnly_loop_trace:
  assumes "a \<in> set (trace (snd (downloadNewFilesOnly_loop l script i st)))"
  shows "a \<in> set (trace st) \<or> a = Write 0x4E \<or> fetched 20 48 l script i a"
  using assms
proof (induction l script i st rule: downloadNewFilesOnly_loop.induct)
  case (1 l script i st)
  show ?case
  proof (cases "i < 20")
    case False
    with "1.prems" show ?thesis by (simp add: downloadNewFilesOnly_loop.simps)
  next
    case True
    let ?o = "downloadNewFilesOnly_entry l (script i) st"
    have entry: "b \<in> set (trace (final ?o)) \<Longrightarrow>
                 b \<in> set (trace st) \<or> b = Write 0x4E \<or> fetched 20 48 l script i b" for b
      using downloadNewFilesOnly_entry_trace [of b l "script i" st] True
      by (auto intro: fetched_here)
    show ?thesis
    proof (cases ?o)
      case (Continue st')
      with True "1.prems" have "a \<in> set (trace (snd (downloadNewFilesOnly_loop l script (i + 1) st')))"
        by (simp add: downloadNewFilesOnly_loop.simps [of l script i])
      from "1.IH" [OF True Continue this]
      have "a \<in> set (trace st') \<or> a = Write 0x4E \<or> fetched 20 48 l script (i + 1) a" .
      with entry [of a] Continue show ?thesis by (auto dest: fetched_later)
    next
      case (Break st')
      with True "1.prems" have "a \<in> set (trace st')"
        by (simp add: downloadNewFilesOnly_loop.simps [of l script i])
      with entry [of a] Break show ?thesis by simp
    next
      case (Throw e st')
      with True "1.prems" have "a \<in> set (trace st')"
        by (simp add: downloadNewFilesOnly_loop.simps [of l script i])
      with entry [of a] Throw show ?thesis by simp
    qed
  qed
qed

lemma downloadFiles_trace:
  assumes "Fetch fname \<in> set (fst (snd (downloadFiles env initial)))"
  shows "fetched 25 72 (getLocalFileNames initial) (steps env) 0 (Fetch fname)"
proof -
  let ?st0 = "\<lparr>files = [], trace = [Write 0x46], disk = initial\<rparr>"
  let ?r = "downloadFiles_loop (getLocalFileNames initial) (steps env) 0 ?st0"
  from assms have "Fetch fname \<in> set (trace (snd ?r))"
    by (auto simp: downloadFiles_def Let_def split: if_splits option.splits prod.splits)
  from downloadFiles_loop_trace [OF this] show ?thesis by simp
qed

lemma downloadNewFilesOnly_trace:
  assumes "Fetch fname \<in> set (fst (snd (downloadNewFilesOnly env initial)))"
  shows "fetched 20 48 (getLocalFileNames initial) (steps env) 0 (Fetch fname)"
proof -
  let ?st0 = "\<lparr>files = [], trace = [Write 0x46], disk = initial\<rparr>"
  let ?r = "downloadNewFilesOnly_loop (getLocalFileNames initial) (steps env) 0 ?st0"
  from assms have "Fetch fname \<in> set (trace (snd ?r))"
    by (auto simp: downloadNewFilesOnly_def Let_def split: if_splits option.splits prod.splits)
  from downloadNewFilesOnly_loop_trace [OF this] show ?thesis by simp
qed

lemma fetchedD:
  assumes "fetched m h l script 0 (Fetch fname)"
  shows "\<exists>j<m. \<exists>sz. reply (script j) = FileEntry fname sz \<and> fname \<notin> l \<and>
                  \<not> tooOld h (clock (script j)) fname"
  using assms unfolding fetched_def by auto

text \<open>
  Claim C5. A turn of either pass that meets a file entry whose time stamp cannot be
  parsed, or whose age exceeds the cutoff of the pass (72 hours in \<open>downloadFiles\<close>, 48 in
  \<open>downloadNewFilesOnly\<close>), does one thing only, whatever the set of local names is: it
  calls \<open>writePacket(device, 'N', '')\<close>; nothing is fetched, stored or recorded. (In the
  full pass the turn gets that far when \<open>device.isConnected()\<close> holds; otherwise the pass
  stops.) And over a whole pass every fetch is for a name that some entry of the list
  carries with a parsable stamp of an age within the cutoff at that entry's turn.
\<close>

theorem old_files_skipped:
  "(reply s = FileEntry fname sz \<and> tooOld 72 (clock s) fname \<and> linkUp s
      \<longrightarrow> final (downloadFiles_entry l s st) = st\<lparr>trace := trace st @ [Write 0x4E]\<rparr>)
   \<and> (reply s = FileEntry fname sz \<and> tooOld 48 (clock s) fname
      \<longrightarrow> final (downloadNewFilesOnly_entry l s st) = st\<lparr>trace := trace st @ [Write 0x4E]\<rparr>)
   \<and> (Fetch fetchedName \<in> set (fst (snd (downloadFiles env initial)))
      \<longrightarrow> (\<exists>j<25. \<exists>sz'. reply (steps env j) = FileEntry fetchedName sz' \<and>
                  \<not> tooOld 72 (clock (steps env j)) fetchedName))
   \<and> (Fetch fetchedName \<in> set (fst (snd (downloadNewFilesOnly env initial)))
      \<longrightarrow> (\<exists>j<20. \<exists>sz'. reply (steps env j) = FileEntry fetchedName sz' \<and>
                  \<not> tooOld 48 (clock (steps env j)) fetchedName))"
proof (intro conjI impI)
  assume "reply s = FileEntry fname sz \<and> tooOld 72 (clock s) fname \<and> linkUp s"
  then show "final (downloadFiles_entry l s st) = st\<lparr>trace := trace st @ [Write 0x4E]\<rparr>"
    by (auto simp: downloadFiles_entry_def writeNext_final tooOld_def split: option.splits)
next
  assume "reply s = FileEntry fname sz \<and> tooOld 48 (clock s) fname"
  then show "final (downloadNewFilesOnly_entry l s st) = st\<lparr>trace := trace st @ [Write 0x4E]\<rparr>"
    by (auto simp: downloadNewFilesOnly_entry_def writeNext_final tooOld_def split: option.splits)
next
  assume "Fetch fetchedName \<in> set (fst (snd (downloadFiles env initial)))"
  from fetchedD [OF downloadFiles_trace [OF this]]
  show "\<exists>j<25. \<exists>sz'. reply (steps env j) = FileEntry fetchedName sz' \<and>
                  \<not> tooOld 72 (clock (steps env j)) fetchedName" by blast
next
  assume "Fetch fetchedName \<in> set (fst (snd (downloadNewFilesOnly env initial)))"
  from fetchedD [OF downloadNewFilesOnly_trace [OF this]]
  show "\<exists>j<20. \<exists>sz'. reply (steps env j) = FileEntry fetchedName sz' \<and>
                  \<not> tooOld 48 (clock (steps env j)) fetchedName" by blast
qed

theorem old_files_skipped_witness:
  "(reply staleStep = FileEntry sampleName 100 \<and> tooOld 72 (clock staleStep) sampleName \<and>
      linkUp staleStep)
   \<and> final (downloadFiles_entry {sampleName} staleStep (afterList [])) =
       (afterList [])\<lparr>trace := trace (afterList []) @ [Write 0x4E]\<rparr>
   \<and> (reply staleStep = FileEntry sampleName 100 \<and> tooOld 48 (clock staleStep) sampleName)
   \<and> final (downloadNewFilesOnly_entry {sampleName} staleStep (afterList [])) =
       (afterList [])\<lparr>trace := trace (afterList []) @ [Write 0x4E]\<rparr>
   \<and> Fetch sampleName \<in> set (fst (snd (downloadFiles (listed [sampleName]) [])))
   \<and> (\<exists>j<25. \<exists>sz'. reply (steps (listed [sampleName]) j) = FileEntry sampleName sz' \<and>
         \<not> tooOld 72 (clock (steps (listed [sampleName]) j)) sampleName)
   \<and> Fetch sampleName \<in> set (fst (snd (downloadNewFilesOnly (listed [sampleName]) [])))
   \<and> (\<exists>j<20. \<exists>sz'. reply (steps (listed [sampleName]) j) = FileEntry sampleName sz' \<and>
         \<not> tooOld 48 (clock (steps (listed [sampleName]) j)) sampleName)"
proof -
  note T = old_files_skipped [where s = staleStep and fname = sampleName and sz = 100
      and l = "{sampleName}" and st = "afterList []"
      and fetchedName = sampleName and env = "listed [sampleName]" and initial = "[]"]
  have old72: "reply staleStep = FileEntry sampleName 100 \<and> tooOld 72 (clock staleStep) sampleName \<and>
      linkUp staleStep" by code_simp
  have old48: "reply staleStep = FileEntry sampleName 100 \<and> tooOld 48 (clock staleStep) sampleName"
    by code_simp
  have f1: "Fetch sampleName \<in> set (fst (snd (downloadFiles (listed [sampleName]) [])))"
    by code_simp
  have f2: "Fetch sampleName \<in> set (fst (snd (downloadNewFilesOnly (listed [sampleName]) [])))"
    by code_simp
  note c1 = T [THEN conjunct1, THEN mp, OF old72]
  note c2 = T [THEN conjunct2, THEN conjunct1, THEN mp, OF old48]
  note c3 = T [THEN conjunct2, THEN conjunct2, THEN conjunct1, THEN mp, OF f1]
  note c4 = T [THEN conjunct2, THEN conjunct2, THEN conjunct2, THEN mp, OF f2]
  from old72 c1 old48 c2 f1 c3 f2 c4 show ?thesis by blast
qed


















section \<open>Properties of the session scheduler\<close>

lemma periodicTimers_clearTimer:
  "periodicTimers (clearTimer h s) = filter (\<lambda>i. i \<noteq> h) (periodicTimers s)"
  by (simp add: periodicTimers_def clearTimer_def filter_map comp_def conj_commute)

lemma periodicTimers_setTimer:
  "periodicTimers (setTimer cb s) =
   periodicTimers s @ (if cb = PeriodicTick then [nextTimerId s] else [])"
  by (simp add: periodicTimers_def setTimer_def)

lemma periodicTimers_bound:
  "\<forall>t \<in> set (timerTable s). fst t < nextTimerId s \<Longrightarrow> i \<in> set (periodicTimers s) \<Longrightarrow>
   i < nextTimerId s"
  by (auto simp: periodicTimers_def)

lemma consistent_clearTimer_idle:
  assumes "consistent s" and "h \<notin> set (periodicTimers s)"
  shows "consistent (clearTimer h s)"
proof -
  from assms(2) have "filter (\<lambda>i. i \<noteq> h) (periodicTimers s) = periodicTimers s"
    by (auto simp: filter_id_conv)
  with assms(1) show ?thesis
    unfolding consistent_def periodicTimers_clearTimer
    by (auto simp: clearTimer_def distinct_map_filter)
qed

lemma consistent_clearPeriodic:
  assumes "consistent s" and "periodicReconnect s = Some h"
  shows "consistent ((clearTimer h s)\<lparr>periodicReconnect := None\<rparr>)"
    and "periodicTimers ((clearTimer h s)\<lparr>periodicReconnect := None\<rparr>) = []"
proof -
  from assms have p: "periodicTimers s = [h]" by (simp add: consistent_def)
  have eq: "periodicTimers ((clearTimer h s)\<lparr>periodicReconnect := None\<rparr>) = periodicTimers (clearTimer h s)"
    by (simp add: periodicTimers_def)
  show e: "periodicTimers ((clearTimer h s)\<lparr>periodicReconnect := None\<rparr>) = []"
    by (simp add: eq periodicTimers_clearTimer p)
  from assms(1) show "consistent ((clearTimer h s)\<lparr>periodicReconnect := None\<rparr>)"
    unfolding consistent_def e
    by (auto simp: clearTimer_def distinct_map_filter)
qed

lemma consistent_setTimer_other:
  assumes "consistent s" and "cb \<noteq> PeriodicTick"
  shows "consistent (setTimer cb s)"
  using assms unfolding consistent_def periodicTimers_setTimer
  by (auto simp: setTimer_def less_Suc_eq split: option.splits)

lemma consistent_dropPeriodic:
  assumes "consistent s"
  shows "consistent (case periodicReconnect s of
                       Some h \<Rightarrow> (clearTimer h s)\<lparr>periodicReconnect := None\<rparr> | None \<Rightarrow> s)"
    and "periodicTimers (case periodicReconnect s of
                       Some h \<Rightarrow> (clearTimer h s)\<lparr>periodicReconnect := None\<rparr> | None \<Rightarrow> s) = []"
    and "periodicReconnect (case periodicReconnect s of
                       Some h \<Rightarrow> (clearTimer h s)\<lparr>periodicReconnect := None\<rparr> | None \<Rightarrow> s) = None"
  using assms consistent_clearPeriodic [OF assms]
  by (auto simp: consistent_def split: option.splits)

lemma startPeriodicReconnect_one:
  assumes "consistent s" and "\<not> immediateCleanup s"
  shows "consistent (startPeriodicReconnect s)"
    and "periodicTimers (startPeriodicReconnect s) = [nextTimerId s]"
    and "periodicReconnect (startPeriodicReconnect s) = Some (nextTimerId s)"
proof -
  let ?s1 = "case periodicReconnect s of
               Some h \<Rightarrow> (clearTimer h s)\<lparr>periodicReconnect := None\<rparr> | None \<Rightarrow> s"
  note d = consistent_dropPeriodic [OF assms(1)]
  have n: "nextTimerId ?s1 = nextTimerId s"
    by (simp add: clearTimer_def split: option.splits)
  have st: "startPeriodicReconnect s = (setTimer PeriodicTick ?s1)\<lparr>periodicReconnect := Some (nextTimerId s)\<rparr>"
    using assms(2) by (simp add: startPeriodicReconnect_def Let_def n)
  have pt: "periodicTimers ((setTimer PeriodicTick ?s1)\<lparr>periodicReconnect := Some (nextTimerId s)\<rparr>)
            = [nextTimerId s]"
    using periodicTimers_setTimer [of PeriodicTick ?s1] d(2) n
    by (simp add: periodicTimers_def)
  show "periodicTimers (startPeriodicReconnect s) = [nextTimerId s]"
    by (simp only: st pt)
  show "periodicReconnect (startPeriodicReconnect s) = Some (nextTimerId s)"
    by (simp add: st)
  from d(1) have c1: "distinct (map fst (timerTable ?s1))"
    "\<forall>t \<in> set (timerTable ?s1). fst t < nextTimerId s"
    "\<forall>h. autoDisconnect ?s1 = Some h \<longrightarrow> h < nextTimerId s"
    unfolding consistent_def n by auto
  show "consistent (startPeriodicReconnect s)"
    unfolding consistent_def st pt using c1 n
    by (auto simp: setTimer_def less_Suc_eq)
qed

lemma consistent_startPeriodicReconnect:
  "consistent s \<Longrightarrow> consistent (startPeriodicReconnect s)"
  by (cases "immediateCleanup s")
     (simp_all add: startPeriodicReconnect_one(1), simp add: startPeriodicReconnect_def)

lemma consistentD:
  assumes "consistent s"
  shows "distinct (map fst (timerTable s))"
    and "\<forall>t \<in> set (timerTable s). fst t < nextTimerId s"
    and "periodicTimers s = (case periodicReconnect s of None \<Rightarrow> [] | Some h \<Rightarrow> [h])"
    and "autoDisconnect s = Some h \<Longrightarrow> h < nextTimerId s"
    and "autoDisconnect s = Some h \<Longrightarrow> h \<notin> set (periodicTimers s)"
  using assms unfolding consistent_def by blast+

lemma consistent_fields_eq:
  "consistent (s\<lparr>immediateCleanup := b\<rparr>) = consistent s"
  "consistent (s\<lparr>isDownloading := b\<rparr>) = consistent s"
  "consistent (s\<lparr>syncing := b\<rparr>) = consistent s"
  "consistent (s\<lparr>sent := bs\<rparr>) = consistent s"
  "consistent (dispatchAutoDisconnect s) = consistent s"
  by (simp_all add: consistent_def periodicTimers_def dispatchAutoDisconnect_def)

lemma consistent_fields:
  assumes "consistent s"
  shows "consistent (s\<lparr>immediateCleanup := b\<rparr>)"
    and "consistent (s\<lparr>isDownloading := b\<rparr>)"
    and "consistent (s\<lparr>syncing := b\<rparr>)"
    and "consistent (s\<lparr>sent := bs\<rparr>)"
    and "consistent (dispatchAutoDisconnect s)"
  using assms by (simp_all only: consistent_fields_eq)

lemma consistent_armIdle:
  assumes "consistent s" and "cb \<noteq> PeriodicTick"
  shows "consistent ((setTimer cb (case autoDisconnect s of Some h \<Rightarrow> clearTimer h s | None \<Rightarrow> s))
                      \<lparr>autoDisconnect := Some (nextTimerId (case autoDisconnect s of Some h \<Rightarrow> clearTimer h s | None \<Rightarrow> s))\<rparr>)"
proof -
  let ?s1 = "case autoDisconnect s of Some h \<Rightarrow> clearTimer h s | None \<Rightarrow> s"
  have c1: "consistent ?s1"
  proof (cases "autoDisconnect s")
    case None
    with assms(1) show ?thesis by simp
  next
    case (Some h)
    from consistentD(5) [OF assms(1) Some] have "h \<notin> set (periodicTimers s)" .
    with assms(1) Some show ?thesis by (simp add: consistent_clearTimer_idle)
  qed
  have c2: "consistent (setTimer cb ?s1)" by (rule consistent_setTimer_other [OF c1 assms(2)])
  have p: "periodicTimers ((setTimer cb ?s1)\<lparr>autoDisconnect := Some (nextTimerId ?s1)\<rparr>) =
           periodicTimers (setTimer cb ?s1)"
    by (simp add: periodicTimers_def)
  have nx: "nextTimerId (setTimer cb ?s1) = Suc (nextTimerId ?s1)" by (simp add: setTimer_def)
  have fresh: "nextTimerId ?s1 \<notin> set (periodicTimers (setTimer cb ?s1))"
  proof
    assume "nextTimerId ?s1 \<in> set (periodicTimers (setTimer cb ?s1))"
    with assms(2) have "nextTimerId ?s1 \<in> set (periodicTimers ?s1)"
      by (simp add: periodicTimers_setTimer)
    moreover from c1 have "\<forall>t \<in> set (timerTable ?s1). fst t < nextTimerId ?s1"
      by (simp add: consistent_def)
    ultimately have "nextTimerId ?s1 < nextTimerId ?s1" by (rule periodicTimers_bound [rotated])
    then show False by simp
  qed
  from c2 fresh show ?thesis
    unfolding consistent_def p by (simp add: nx)
qed

lemma consistent_scheduleAutoDisconnect_of:
  "consistent s \<Longrightarrow> consistent (scheduleAutoDisconnect_of dev syn s)"
  unfolding scheduleAutoDisconnect_of_def Let_def by (rule consistent_armIdle) simp_all

lemma consistent_scheduleAutoDisconnect:
  "consistent s \<Longrightarrow> consistent (scheduleAutoDisconnect s)"
  by (simp add: scheduleAutoDisconnect_def consistent_scheduleAutoDisconnect_of)

lemma consistent_scheduleAutoDisconnectFast:
  "consistent s \<Longrightarrow> consistent (scheduleAutoDisconnectFast dev s)"
  unfolding scheduleAutoDisconnectFast_def Let_def by (rule consistent_armIdle) simp_all

lemma consistent_clearAllTimers:
  assumes "consistent s"
  shows "consistent (clearAllTimers s)"
proof -
  let ?s1 = "case autoDisconnect s of
               Some h \<Rightarrow> (clearTimer h s)\<lparr>autoDisconnect := None\<rparr> | None \<Rightarrow> s"
  have "consistent ?s1"
  proof (cases "autoDisconnect s")
    case None
    with assms show ?thesis by simp
  next
    case (Some h)
    from consistentD(5) [OF assms Some] have "h \<notin> set (periodicTimers s)" .
    from consistent_clearTimer_idle [OF assms this]
    have "consistent (clearTimer h s)" .
    moreover have "consistent ((clearTimer h s)\<lparr>autoDisconnect := None\<rparr>) \<longleftrightarrow>
                   distinct (map fst (timerTable (clearTimer h s))) \<and>
                   (\<forall>t \<in> set (timerTable (clearTimer h s)). fst t < nextTimerId (clearTimer h s)) \<and>
                   periodicTimers (clearTimer h s) =
                     (case periodicReconnect (clearTimer h s) of None \<Rightarrow> [] | Some h \<Rightarrow> [h])"
      by (simp add: consistent_def periodicTimers_def)
    ultimately have "consistent ((clearTimer h s)\<lparr>autoDisconnect := None\<rparr>)"
      using consistentD(1-3) by blast
    with Some show ?thesis by simp
  qed
  from consistent_dropPeriodic(1) [OF this] show ?thesis
    by (simp add: clearAllTimers_def Let_def)
qed

lemma consistent_autoDisconnectWithDevice:
  assumes "consistent s"
  shows "consistent (autoDisconnectWithDevice dev s)"
proof (cases dev)
  case None
  with assms show ?thesis by (simp add: autoDisconnectWithDevice_def consistent_fields)
next
  case (Some d)
  have "consistent (dispatchAutoDisconnect (s\<lparr>sent := sent s @ [0x2E]\<rparr>))"
    by (intro consistent_fields assms)
  then show ?thesis
    using Some by (simp add: autoDisconnectWithDevice_def Let_def consistent_setTimer_other)
qed

lemma consistent_periodicTick: "consistent s \<Longrightarrow> consistent (periodicTick s)"
  using consistent_dropPeriodic(1) [of s] by (simp add: periodicTick_def)

lemma consistent_delayedStart: "consistent s \<Longrightarrow> consistent (delayedStart site s)"
  by (simp add: delayedStart_def consistent_startPeriodicReconnect)

lemma startGuard_no_cleanup: "startGuard site s \<Longrightarrow> \<not> immediateCleanup s"
  by (cases site) simp_all

lemma map_of_periodic:
  assumes "distinct (map fst tab)" and "map_of tab h = Some cb" and "cb \<noteq> PeriodicTick"
  shows "h \<notin> fst ` set (filter (\<lambda>t. snd t = PeriodicTick) tab)"
proof
  assume "h \<in> fst ` set (filter (\<lambda>t. snd t = PeriodicTick) tab)"
  then have "(h, PeriodicTick) \<in> set tab" by auto
  with assms(1) have "map_of tab h = Some PeriodicTick" by (rule map_of_is_SomeI)
  with assms(2,3) show False by simp
qed

lemma consistent_fireTimer:
  assumes "consistent s"
  shows "consistent (fireTimer h s)"
proof (cases "map_of (timerTable s) h")
  case None
  with assms show ?thesis by (simp add: fireTimer_def)
next
  case (Some cb)
  show ?thesis
  proof (cases "cb = PeriodicTick")
    case True
    with Some assms show ?thesis by (simp add: fireTimer_def consistent_periodicTick)
  next
    case False
    from assms have "distinct (map fst (timerTable s))" by (simp add: consistent_def)
    from map_of_periodic [OF this Some False] have "h \<notin> set (periodicTimers s)"
      by (simp add: periodicTimers_def)
    from consistent_clearTimer_idle [OF assms this] have c: "consistent (clearTimer h s)" .
    have "consistent (runCallback cb (clearTimer h s))"
      using c False
      by (cases cb) (simp_all add: consistent_scheduleAutoDisconnect_of
          consistent_autoDisconnectWithDevice consistent_delayedStart)
    with Some False show ?thesis by (cases cb) (simp_all add: fireTimer_def)
  qed
qed

lemma consistent_happen: "consistent s \<Longrightarrow> consistent (happen ev s)"
  using consistent_dropPeriodic(1) [of s]
  by (cases ev) (simp_all add: consistent_delayedStart consistent_clearAllTimers
      consistent_fields consistent_scheduleAutoDisconnect consistent_scheduleAutoDisconnectFast
      consistent_fireTimer)

lemma consistent_run: "consistent s \<Longrightarrow> consistent (run evs s)"
  unfolding run_def by (induction evs arbitrary: s) (simp_all add: consistent_happen)

lemma consistent_linked: "consistent (linked serial dev)"
  by (simp add: consistent_def linked_def periodicTimers_def)

lemma consistent_fresh:
  "timerTable s = [] \<Longrightarrow> autoDisconnect s = None \<Longrightarrow> periodicReconnect s = None \<Longrightarrow>
   consistent s"
  by (simp add: consistent_def periodicTimers_def)

text \<open>
  Claim C4. A session that starts without timers is consistent (\<open>consistent_fresh\<close>),
  and whatever happens to the timers from there, at most one periodic-reconnect interval
  is live. Every call of \<open>startPeriodicReconnect\<close> that the program makes, that is from a
  call site whose test has just passed, clears the interval there was and leaves exactly
  one, a new one; and so do two such calls in succession.
\<close>

theorem one_periodic_reconnect_timer:
  assumes "consistent s"
  shows "length (periodicTimers (run evs s)) \<le> 1
    \<and> (startGuard site (run evs s) \<longrightarrow>
         periodicTimers (startPeriodicReconnect (run evs s)) = [nextTimerId (run evs s)]
         \<and> nextTimerId (run evs s) \<notin> set (periodicTimers (run evs s))
         \<and> run (evs @ [DelayedStart site]) s = startPeriodicReconnect (run evs s))
    \<and> (startGuard site (run evs s) \<and> startGuard site' (startPeriodicReconnect (run evs s)) \<longrightarrow>
         periodicTimers (startPeriodicReconnect (startPeriodicReconnect (run evs s))) =
           [nextTimerId (startPeriodicReconnect (run evs s))]
         \<and> nextTimerId (startPeriodicReconnect (run evs s)) \<notin>
             set (periodicTimers (startPeriodicReconnect (run evs s)))
         \<and> run (evs @ [DelayedStart site, DelayedStart site']) s =
             startPeriodicReconnect (startPeriodicReconnect (run evs s)))"
proof -
  let ?s = "run evs s"
  have c: "consistent ?s" by (rule consistent_run [OF assms])
  then have le: "length (periodicTimers ?s) \<le> 1"
    by (auto simp: consistent_def split: option.splits)
  have call: "periodicTimers (startPeriodicReconnect t) = [nextTimerId t]
      \<and> nextTimerId t \<notin> set (periodicTimers t)
      \<and> consistent (startPeriodicReconnect t)"
    if ct: "consistent t" and g: "startGuard st t" for t st
  proof -
    from g have live: "\<not> immediateCleanup t" by (rule startGuard_no_cleanup)
    from ct have "\<forall>x \<in> set (timerTable t). fst x < nextTimerId t" by (simp add: consistent_def)
    from periodicTimers_bound [OF this] have "nextTimerId t \<notin> set (periodicTimers t)" by blast
    with startPeriodicReconnect_one(1,2) [OF ct live] show ?thesis by simp
  qed
  have r1: "run (evs @ [DelayedStart site]) s = startPeriodicReconnect ?s"
    if "startGuard site ?s"
    using that by (simp add: run_def delayedStart_def)
  have r2: "run (evs @ [DelayedStart site, DelayedStart site']) s =
            startPeriodicReconnect (startPeriodicReconnect ?s)"
    if "startGuard site ?s" "startGuard site' (startPeriodicReconnect ?s)"
    using that by (simp add: run_def delayedStart_def)
  from le call [OF c] r1 r2 call [of "startPeriodicReconnect ?s" site']
  show ?thesis by blast
qed

theorem one_periodic_reconnect_timer_witness:
  "consistent (linked ''0042'' ''DU-0042'')
   \<and> length (periodicTimers (run [DelayedStart AfterDisconnect] (linked ''0042'' ''DU-0042''))) \<le> 1
   \<and> startGuard AfterConnectFailure (run [DelayedStart AfterDisconnect] (linked ''0042'' ''DU-0042''))
   \<and> periodicTimers (startPeriodicReconnect
        (run [DelayedStart AfterDisconnect] (linked ''0042'' ''DU-0042''))) =
       [nextTimerId (run [DelayedStart AfterDisconnect] (linked ''0042'' ''DU-0042''))]
   \<and> periodicTimers (run [DelayedStart AfterDisconnect] (linked ''0042'' ''DU-0042'')) = [1]
   \<and> nextTimerId (run [DelayedStart AfterDisconnect] (linked ''0042'' ''DU-0042'')) = 2
   \<and> startGuard (OnAppOpen False) (startPeriodicReconnect
        (run [DelayedStart AfterDisconnect] (linked ''0042'' ''DU-0042'')))
   \<and> periodicTimers (startPeriodicReconnect (startPeriodicReconnect
        (run [DelayedStart AfterDisconnect] (linked ''0042'' ''DU-0042'')))) =
       [nextTimerId (startPeriodicReconnect
          (run [DelayedStart AfterDisconnect] (linked ''0042'' ''DU-0042'')))]
   \<and> nextTimerId (startPeriodicReconnect
        (run [DelayedStart AfterDisconnect] (linked ''0042'' ''DU-0042''))) = 3"
proof -
  have c: "consistent (linked ''0042'' ''DU-0042'')" by (rule consistent_linked)
  note A = one_periodic_reconnect_timer [OF c, of "[DelayedStart AfterDisconnect]"
      AfterConnectFailure "OnAppOpen False"]
  have g1: "startGuard AfterConnectFailure
              (run [DelayedStart AfterDisconnect] (linked ''0042'' ''DU-0042''))"
    by code_simp
  have g2: "startGuard (OnAppOpen False) (startPeriodicReconnect
              (run [DelayedStart AfterDisconnect] (linked ''0042'' ''DU-0042'')))"
    by code_simp
  have p: "periodicTimers (run [DelayedStart AfterDisconnect] (linked ''0042'' ''DU-0042'')) = [1]"
    by code_simp
  have n2: "nextTimerId (run [DelayedStart AfterDisconnect] (linked ''0042'' ''DU-0042'')) = 2"
    by code_simp
  have n3: "nextTimerId (startPeriodicReconnect
        (run [DelayedStart AfterDisconnect] (linked ''0042'' ''DU-0042''))) = 3"
    by code_simp
  note a1 = A [THEN conjunct1]
  note a2 = A [THEN conjunct2, THEN conjunct1, THEN mp, OF g1]
  note a3 = A [THEN conjunct2, THEN conjunct2, THEN mp, OF conjI [OF g1 g2]]
  from c a1 g1 a2 g2 a3 p n2 n3 show ?thesis by blast
qed

lemma idle_timer_defers:
  assumes "isDownloading s \<or> activeOperations s \<noteq> [] \<or> syn"
  shows "sent (runCallback (IdleDisconnect dev syn) s) = sent s"
    and "autoDisconnect (runCallback (IdleDisconnect dev syn) s) = Some (nextTimerId s)"
    and "(nextTimerId s, IdleDisconnect dev syn) \<in>
           set (timerTable (runCallback (IdleDisconnect dev syn) s))"
  using assms
  by (auto simp: scheduleAutoDisconnect_of_def setTimer_def clearTimer_def Let_def
      split: option.splits)

lemma idle_timer_captured_syncing:
  "sent (run [ScheduleAutoDisconnect, SetSyncing True, Fire 1] (linked ''0042'' ''DU-0042'')) =
     [0x2E]"
  by code_simp

lemma fast_idle_timer_disconnects:
  "sent (runCallback (IdleDisconnectFast dev) s) = sent s @ [0x2E]"
  "autoDisconnect (runCallback (IdleDisconnectFast dev) s) = autoDisconnect s"
  "idleTimers (runCallback (IdleDisconnectFast dev) s) = idleTimers s"
  by (simp_all add: autoDisconnectWithDevice_def dispatchAutoDisconnect_def setTimer_def Let_def
      idleTimers_def)

text \<open>
  Claim C3. The timer armed by \<open>scheduleAutoDisconnect\<close> defers (\<open>idle_timer_defers\<close>, and
  lines five, six, nine and ten below): fired while the activity flag is set it sends
  nothing and is armed again; of \<open>state.syncingFiles\<close> it sees the value of the render
  that armed it (\<open>idle_timer_captured_syncing\<close>).
  The timer armed by \<open>scheduleAutoDisconnectFast\<close>, the one scheduled after a
  periodic-reconnect sync pass, has no such check (\<open>fast_idle_timer_disconnects\<close>): fired
  while a sync started by \<open>refreshFiles\<close> is in progress (\<open>syncingFiles\<close> set), it sends
  the disconnect command and is not armed again. So it does when the sync starts after the
  timer is armed and the timer fires while \<open>downloadFiles\<close>, having set \<open>isDownloading\<close>,
  awaits \<open>getLocalFileNames\<close> and has not yet cleared the timer (lines seven and eight).
\<close>

theorem fast_idle_timer_ignores_activity:
  "syncing (run [SetSyncing True, ScheduleAutoDisconnectFast ''DU-0042'']
                (linked ''0042'' ''DU-0042''))
   \<and> idleTimers (run [SetSyncing True, ScheduleAutoDisconnectFast ''DU-0042'']
                      (linked ''0042'' ''DU-0042'')) = [1]
   \<and> sent (run [SetSyncing True, ScheduleAutoDisconnectFast ''DU-0042'', Fire 1]
                (linked ''0042'' ''DU-0042'')) = [0x2E]
   \<and> idleTimers (run [SetSyncing True, ScheduleAutoDisconnectFast ''DU-0042'', Fire 1]
                      (linked ''0042'' ''DU-0042'')) = []
   \<and> sent (run [SetSyncing True, ScheduleAutoDisconnect, Fire 1]
                (linked ''0042'' ''DU-0042'')) = []
   \<and> idleTimers (run [SetSyncing True, ScheduleAutoDisconnect, Fire 1]
                      (linked ''0042'' ''DU-0042'')) = [2]
   \<and> sent (run [ScheduleAutoDisconnectFast ''DU-0042'', SetSyncing True, SetDownloading True,
                 Fire 1] (linked ''0042'' ''DU-0042'')) = [0x2E]
   \<and> idleTimers (run [ScheduleAutoDisconnectFast ''DU-0042'', SetSyncing True,
                       SetDownloading True, Fire 1] (linked ''0042'' ''DU-0042'')) = []
   \<and> sent (run [ScheduleAutoDisconnect, SetSyncing True, SetDownloading True, Fire 1]
                (linked ''0042'' ''DU-0042'')) = []
   \<and> idleTimers (run [ScheduleAutoDisconnect, SetSyncing True, SetDownloading True, Fire 1]
                      (linked ''0042'' ''DU-0042'')) = [2]"
  by code_simp

section \<open>Properties of link establishment\<close>

lemma authLoop_never_throws:
  assumes "\<forall>i. \<not> abortAtStart (tries i) \<and> \<not> abortInSettle (tries i)" and "thrown r = None"
  shows "thrown (authLoop serial tries r) = None"
  using assms
proof (induction serial tries r rule: authLoop.induct)
  case (1 serial tries r)
  show ?case
  proof (cases "authAttempts r < 3 \<and> \<not> authSuccessful r")
    case False
    then have "authLoop serial tries r = r" by (subst authLoop.simps) (simp only: if_False)
    with "1.prems" show ?thesis by simp
  next
    case True
    let ?t = "tries (authAttempts r)"
    let ?r1 = "r\<lparr>authAttempts := authAttempts r + 1\<rparr>"
    from "1.prems" have na: "\<not> abortAtStart ?t" "\<not> abortInSettle ?t" by auto
    show ?thesis
    proof (cases "authAttempt serial ?t")
      case (Inr u)
      from "1.IH"(2) [OF True refl na(1) refl Inr "1.prems"(1)] "1.prems"(2)
      have "thrown (authLoop serial tries (?r1\<lparr>authSuccessful := True\<rparr>)) = None" by simp
      with True na Inr show ?thesis by (subst authLoop.simps) (simp add: Let_def)
    next
      case (Inl e)
      from "1.IH"(1) [OF True refl na(1) refl Inl refl na(2) "1.prems"(1)] "1.prems"(2)
      have "thrown (authLoop serial tries (?r1\<lparr>caught := caught ?r1 @ [e]\<rparr>)) = None" by simp
      with True na Inl show ?thesis by (subst authLoop.simps) (simp add: Let_def)
    qed
  qed
qed

lemma authenticateWithRetry_never_throws:
  assumes "\<forall>i. \<not> abortAtStart (tries i) \<and> \<not> abortInSettle (tries i)"
  shows "thrown (authenticateWithRetry serial tries) = None"
  unfolding authenticateWithRetry_def by (rule authLoop_never_throws [OF assms]) simp

text \<open>
  Claim C1. Three attempts in a row answered by \<open>{"Authenticated":false}\<close>: each attempt
  throws the authentication error inside the loop, the \<open>catch\<close> block swallows it, and after
  the third the loop ends and \<open>authenticateWithRetry\<close> returns without throwing. \<open>connect\<close>
  goes on to dispatch \<open>CONNECT_SUCCESS\<close>: it returns no error and the state is connected.
  (Unless the logout flag is seen, \<open>authenticateWithRetry\<close> throws nothing at all:
  \<open>authenticateWithRetry_never_throws\<close>.)
\<close>

theorem rejected_authentication_connects:
  "authenticateWithRetry ''0042'' (\<lambda>i. rejecting authFalse) =
     \<lparr>thrown = None, authSuccessful = False, authAttempts = 3,
      caught = [AuthenticationFailed authFalse, AuthenticationFailed authFalse,
                AuthenticationFailed authFalse]\<rparr>
   \<and> connect ''0042'' (freshConnect (\<lambda>i. rejecting authFalse)) idle =
     (None, \<lparr>bleDevice = Some ''DU-0042'', bleConnected = True, connecting = False,
             searching = False, authenticating = False, bleSyncingFiles = False,
             lastSerial = Some ''0042'', isPeriodicReconnect = False\<rparr>)"
  by code_simp

end
